theory Spec2Isabelle
  imports Complex_Main "HOL-Library.Sublist"
begin

section \<open>The event bus of numba/core/event.py\<close>

text \<open>
  A shallow embedding of \<^verbatim>\<open>src/numba/core/event.py\<close>. The module keeps a
  process-wide registry of listeners, builds event records and delivers them to
  the listeners synchronously. Python's effects are made explicit:
  \<^item> listener objects live in a store (\<open>heap\<close>) and are named by references, so
    that the registry's lists hold references and \<open>list.remove\<close> compares
    identities;
  \<^item> an exception is a value \<open>Inl e\<close>; a statement is a function from the world
    to a result and the world after it (the state reached when the exception was
    raised is kept), or to \<open>None\<close> when it does not return;
  \<^item> the two clocks (\<open>timeit.default_timer\<close> and \<open>time.time\<close>) are read from
    the world, each read taking the next instant.
\<close>

subsection \<open>Exceptions\<close>

datatype exn_class = ValueError | TypeError | AttributeError | AssertionError
  | UserError string

datatype exn = Exn (exn_class: exn_class) (exn_msg: string)

text \<open>The traceback of an exception is opaque: only whose traceback it is matters.\<close>

datatype traceback = TracebackOf exn

text \<open>The 3-tuple \<open>(type, value, traceback)\<close> handed to \<open>__exit__\<close>.\<close>

type_synonym exc_details = "exn_class option \<times> exn option \<times> traceback option"

definition no_exc :: exc_details where
  "no_exc = (None, None, None)"

definition exc_info :: "exn \<Rightarrow> exc_details" where
  "exc_info e = (Some (exn_class e), Some e, Some (TracebackOf e))"

text \<open>The spec's names for the two failures the module raises itself; both are
  Python's \<open>ValueError\<close>, told apart by their messages only.\<close>

definition InvalidEventKind :: "string \<Rightarrow> exn" where
  "InvalidEventKind k = Exn ValueError (k @ '' is not a valid event kind'')"

definition ListenerNotFound :: exn where
  "ListenerNotFound = Exn ValueError ''list.remove(x): x not in list''"

subsection \<open>Event kinds and the guard\<close>

datatype EventStatus = START | END

definition builtin_kinds :: "string set" where
  "builtin_kinds = {''numba:compiler_lock'', ''numba:compile''}"

definition startswith :: "string \<Rightarrow> string \<Rightarrow> bool" where
  "startswith s p = prefix p s"

definition guard_kind :: "string \<Rightarrow> exn + string" where
  "guard_kind k =
     (if startswith k ''numba:'' \<and> k \<notin> builtin_kinds
      then Inl (InvalidEventKind k)
      else Inr k)"

subsection \<open>Event records\<close>

text \<open>The payload of an event is any Python value; the module never inspects it.\<close>

datatype pyval = PyNone | PyInt int | PyFloat real | PyStr string

record Event =
  ev_kind :: string
  ev_status :: EventStatus
  ev_data :: pyval
  ev_exc_details :: "exc_details option"

text \<open>\<open>Event.__init__\<close>: the kind goes through the guard, the rest is stored.\<close>

definition Event_init ::
  "string \<Rightarrow> EventStatus \<Rightarrow> pyval \<Rightarrow> exc_details option \<Rightarrow> exn + Event" where
  "Event_init k st d x =
     (case guard_kind k of
        Inl e \<Rightarrow> Inl e
      | Inr k' \<Rightarrow> Inr \<lparr>ev_kind = k', ev_status = st, ev_data = d, ev_exc_details = x\<rparr>)"

definition is_start :: "Event \<Rightarrow> bool" where
  "is_start ev = (ev_status ev = START)"

definition is_end :: "Event \<Rightarrow> bool" where
  "is_end ev = (ev_status ev = END)"

definition NoneType_not_subscriptable :: exn where
  "NoneType_not_subscriptable = Exn TypeError ''NoneType object is not subscriptable''"

text \<open>\<open>is_failed\<close> is \<open>self._exc_details[0] is None\<close>: subscripting \<open>None\<close> raises.\<close>

definition is_failed :: "Event \<Rightarrow> exn + bool" where
  "is_failed ev =
     (case ev_exc_details ev of
        None \<Rightarrow> Inl NoneType_not_subscriptable
      | Some (ty, val, tb) \<Rightarrow> Inr (ty = None))"

subsection \<open>Listener objects and the world\<close>

text \<open>
  The registry is the module's \<open>defaultdict(list)\<close>: a kind never registered
  reads as the empty list.
\<close>

type_synonym registry = "string \<Rightarrow> nat list"

text \<open>
  A callback of a user's listener gets the event, works on the listener's own
  state and on the registry, and may raise. What it does to the registry stands
  for its calls of \<open>register\<close> and \<open>unregister\<close>: the lists are changed in
  place, so a broadcast that is under way sees the change. Callbacks that emit
  events themselves are outside this model.
\<close>

type_synonym callback = "Event \<Rightarrow> pyval \<Rightarrow> registry \<Rightarrow> exn option \<times> pyval \<times> registry"

text \<open>
  An object of the store is a \<open>TimingListener\<close> (\<open>_ts\<close>, \<open>_depth\<close> and the
  attribute \<open>_duration\<close>, which does not exist until it is first assigned), a
  \<open>RecordingListener\<close> (its \<open>buffer\<close>), a listener of a user's own class (its
  state, \<open>on_start\<close> and \<open>on_end\<close>), or an object that is no \<open>Listener\<close> at
  all (some value).
\<close>

datatype pyobj =
    TimingListener "real option" int "real option"
  | RecordingListener "(real \<times> Event) list"
  | CustomListener pyval callback callback
  | OtherObject pyval

text \<open>
  \<open>default_timer\<close> and \<open>time_time\<close> give the reading of each clock at every
  instant. A reading is the real number that the float denotes; \<open>float_sub\<close>
  is the machine's subtraction of two floats, about which nothing is assumed.
\<close>

record world =
  registered :: registry
  heap :: "nat \<Rightarrow> pyobj option"
  next_ref :: nat
  instant :: nat
  default_timer :: "nat \<Rightarrow> real"
  time_time :: "nat \<Rightarrow> real"
  float_sub :: "real \<Rightarrow> real \<Rightarrow> real"

text \<open>A statement that always returns, and one that may not.\<close>

type_synonym 'a step = "world \<Rightarrow> (exn + 'a) \<times> world"

type_synonym 'a prog = "world \<Rightarrow> ((exn + 'a) \<times> world) option"

definition lift :: "'a step \<Rightarrow> 'a prog" where
  "lift m w = Some (m w)"

definition pbind :: "'a prog \<Rightarrow> ('a \<Rightarrow> 'b prog) \<Rightarrow> 'b prog" where
  "pbind m f w =
     (case m w of
        None \<Rightarrow> None
      | Some (Inl e, w1) \<Rightarrow> Some (Inl e, w1)
      | Some (Inr v, w1) \<Rightarrow> f v w1)"

text \<open>\<open>try: block finally: fin\<close>: a failure of \<open>fin\<close> replaces the block's outcome.\<close>

definition try_finally :: "'a prog \<Rightarrow> unit prog \<Rightarrow> 'a prog" where
  "try_finally block fin w =
     (case block w of
        None \<Rightarrow> None
      | Some (res, w1) \<Rightarrow>
          (case fin w1 of
             None \<Rightarrow> None
           | Some (Inl x, w2) \<Rightarrow> Some (Inl x, w2)
           | Some (Inr u, w2) \<Rightarrow> Some (res, w2)))"

definition timer :: "world \<Rightarrow> real \<times> world" where
  "timer w = (default_timer w (instant w), w\<lparr>instant := Suc (instant w)\<rparr>)"

definition time_now :: "world \<Rightarrow> real \<times> world" where
  "time_now w = (time_time w (instant w), w\<lparr>instant := Suc (instant w)\<rparr>)"

definition set_obj :: "nat \<Rightarrow> pyobj \<Rightarrow> world \<Rightarrow> world" where
  "set_obj r obj w = w\<lparr>heap := (heap w)(r \<mapsto> obj)\<rparr>"

definition alloc :: "pyobj \<Rightarrow> world \<Rightarrow> nat \<times> world" where
  "alloc obj w =
     (next_ref w, w\<lparr>heap := (heap w)(next_ref w \<mapsto> obj), next_ref := Suc (next_ref w)\<rparr>)"

definition isinstance_Listener :: "world \<Rightarrow> nat \<Rightarrow> bool" where
  "isinstance_Listener w r =
     (case heap w r of
        None \<Rightarrow> False
      | Some (OtherObject v) \<Rightarrow> False
      | Some obj \<Rightarrow> True)"

subsection \<open>The callbacks of the listener classes\<close>

definition no_attribute :: "string \<Rightarrow> exn" where
  "no_attribute a = Exn AttributeError (''object has no attribute '' @ a)"

definition float_minus_None :: exn where
  "float_minus_None = Exn TypeError ''unsupported operand type(s) for -: float and NoneType''"

text \<open>
  \<open>on_start\<close> of the object behind \<open>r\<close>. \<open>TimingListener\<close>: take the time if none
  is stored, then go one level deeper. \<open>RecordingListener\<close>: append. A user's
  listener: run its callback. The last two cases do not arise for an entry of
  the registry: \<open>register\<close> admits listeners only.
\<close>

definition on_start :: "nat \<Rightarrow> Event \<Rightarrow> unit step" where
  "on_start r ev w =
     (case heap w r of
        Some (TimingListener ts depth dur) \<Rightarrow>
          (if ts = None
           then (case timer w of (t, w1) \<Rightarrow>
                   (Inr (), set_obj r (TimingListener (Some t) (depth + 1) dur) w1))
           else (Inr (), set_obj r (TimingListener ts (depth + 1) dur) w))
      | Some (RecordingListener buf) \<Rightarrow>
          (case time_now w of (t, w1) \<Rightarrow>
             (Inr (), set_obj r (RecordingListener (buf @ [(t, ev)])) w1))
      | Some (CustomListener s f g) \<Rightarrow>
          (case f ev s (registered w) of
             (None, s', reg) \<Rightarrow>
               (Inr (), set_obj r (CustomListener s' f g) (w\<lparr>registered := reg\<rparr>))
           | (Some e, s', reg) \<Rightarrow>
               (Inl e, set_obj r (CustomListener s' f g) (w\<lparr>registered := reg\<rparr>)))
      | Some (OtherObject v) \<Rightarrow> (Inl (no_attribute ''on_start''), w)
      | None \<Rightarrow> (Inl (no_attribute ''on_start''), w))"

text \<open>
  \<open>on_end\<close>. \<open>TimingListener\<close>: go one level back; at level zero read the timer
  and subtract the stored time (a \<open>TypeError\<close> when none is stored: the timer has
  been read and the depth written by then).
\<close>

definition on_end :: "nat \<Rightarrow> Event \<Rightarrow> unit step" where
  "on_end r ev w =
     (case heap w r of
        Some (TimingListener ts depth dur) \<Rightarrow>
          (if depth - 1 = 0
           then (case timer (set_obj r (TimingListener ts (depth - 1) dur) w) of (t, w1) \<Rightarrow>
                   (case ts of
                      None \<Rightarrow> (Inl float_minus_None, w1)
                    | Some t0 \<Rightarrow>
                        (Inr (), set_obj r
                           (TimingListener ts (depth - 1) (Some (float_sub w t t0))) w1)))
           else (Inr (), set_obj r (TimingListener ts (depth - 1) dur) w))
      | Some (RecordingListener buf) \<Rightarrow>
          (case time_now w of (t, w1) \<Rightarrow>
             (Inr (), set_obj r (RecordingListener (buf @ [(t, ev)])) w1))
      | Some (CustomListener s f g) \<Rightarrow>
          (case g ev s (registered w) of
             (None, s', reg) \<Rightarrow>
               (Inr (), set_obj r (CustomListener s' f g) (w\<lparr>registered := reg\<rparr>))
           | (Some e, s', reg) \<Rightarrow>
               (Inl e, set_obj r (CustomListener s' f g) (w\<lparr>registered := reg\<rparr>)))
      | Some (OtherObject v) \<Rightarrow> (Inl (no_attribute ''on_end''), w)
      | None \<Rightarrow> (Inl (no_attribute ''on_end''), w))"


text \<open>\<open>Listener.notify\<close>.\<close>

definition notify :: "nat \<Rightarrow> Event \<Rightarrow> unit step" where
  "notify r ev w =
     (if is_start ev then on_start r ev w
      else if is_end ev then on_end r ev w
      else (Inl (Exn AssertionError ''unreachable''), w))"

subsection \<open>The registry\<close>

definition register :: "string \<Rightarrow> nat \<Rightarrow> unit step" where
  "register k r w =
     (if \<not> isinstance_Listener w r then (Inl (Exn AssertionError ''''), w)
      else (case guard_kind k of
              Inl e \<Rightarrow> (Inl e, w)
            | Inr k' \<Rightarrow> (Inr (), w\<lparr>registered := (registered w)(k' := registered w k' @ [r])\<rparr>)))"

text \<open>\<open>lst.remove(listener)\<close> deletes the first equal entry and raises \<open>ValueError\<close>
  when there is none.\<close>

definition unregister :: "string \<Rightarrow> nat \<Rightarrow> unit step" where
  "unregister k r w =
     (if \<not> isinstance_Listener w r then (Inl (Exn AssertionError ''''), w)
      else (case guard_kind k of
              Inl e \<Rightarrow> (Inl e, w)
            | Inr k' \<Rightarrow>
                (if r \<in> set (registered w k')
                 then (Inr (), w\<lparr>registered := (registered w)(k' := remove1 r (registered w k'))\<rparr>)
                 else (Inl ListenerNotFound, w))))"

text \<open>
  The loop of \<open>broadcast\<close>, \<open>for listener in _registered[event.kind]\<close>. The
  iterator of a Python list keeps a position into the list itself: each round
  it stops if the position is past the end as the list is now, and otherwise
  takes the entry there and moves on. So entries that a callback removes or adds
  while the loop runs shift or extend what is still to come; a list that keeps
  growing keeps the loop running, and then the broadcast does not return.
\<close>

partial_function (option) broadcast_loop ::
  "string \<Rightarrow> nat \<Rightarrow> Event \<Rightarrow> world \<Rightarrow> ((exn + unit) \<times> world) option" where
  "broadcast_loop k i ev w =
     (if i < length (registered w k)
      then (case notify (registered w k ! i) ev w of
              (Inl e, w1) \<Rightarrow> Some (Inl e, w1)
            | (Inr u, w1) \<Rightarrow> broadcast_loop k (Suc i) ev w1)
      else Some (Inr (), w))"

definition broadcast :: "Event \<Rightarrow> unit prog" where
  "broadcast ev w = broadcast_loop (ev_kind ev) 0 ev w"

subsection \<open>Emission\<close>

definition start_event :: "string \<Rightarrow> pyval \<Rightarrow> unit prog" where
  "start_event k d w =
     (case Event_init k START d None of
        Inl e \<Rightarrow> Some (Inl e, w)
      | Inr evt \<Rightarrow> broadcast evt w)"

definition end_event :: "string \<Rightarrow> pyval \<Rightarrow> exc_details option \<Rightarrow> unit prog" where
  "end_event k d x w =
     (case Event_init k END d x of
        Inl e \<Rightarrow> Some (Inl e, w)
      | Inr evt \<Rightarrow> broadcast evt w)"

text \<open>
  \<open>with ExitStack() as scope\<close> with one callback pushed before the block runs.
  When the block is left, the callback gets the triple of the exception leaving
  it, or three \<open>None\<close>. The callback returns nothing, so it never suppresses the
  exception; when the callback itself raises, that exception leaves the scope
  instead.
\<close>

definition exit_details :: "exn + 'a \<Rightarrow> exc_details" where
  "exit_details res = (case res of Inl e \<Rightarrow> exc_info e | Inr v \<Rightarrow> no_exc)"

definition ExitStack_scope :: "(exc_details \<Rightarrow> unit prog) \<Rightarrow> 'a prog \<Rightarrow> 'a prog" where
  "ExitStack_scope on_exit block w =
     (case block w of
        None \<Rightarrow> None
      | Some (res, w1) \<Rightarrow>
          (case on_exit (exit_details res) w1 of
             None \<Rightarrow> None
           | Some (Inl x, w2) \<Rightarrow> Some (Inl x, w2)
           | Some (Inr u, w2) \<Rightarrow> Some (res, w2)))"

text \<open>
  \<open>with mark_event(kind, data): body\<close>. The generator runs up to its \<open>yield\<close>
  on entry, the body of the \<open>with\<close> statement runs at the \<open>yield\<close>, and an
  exception of the body is thrown into the generator there; so the body stands
  where the \<open>yield\<close> is.
\<close>

definition mark_event :: "string \<Rightarrow> pyval \<Rightarrow> unit prog \<Rightarrow> unit prog" where
  "mark_event k d body =
     ExitStack_scope (\<lambda>x. end_event k d (Some x))
       (pbind (start_event k d) (\<lambda>u. body))"

subsection \<open>Scoped installers\<close>


text \<open>\<open>with install_recorder(kind) as rl: body\<close>.\<close>

definition install_recorder :: "string \<Rightarrow> (nat \<Rightarrow> unit prog) \<Rightarrow> unit prog" where
  "install_recorder k body w =
     (case alloc (RecordingListener []) w of (rl, w0) \<Rightarrow>
        pbind (lift (register k rl))
          (\<lambda>u. try_finally (body rl) (lift (unregister k rl))) w0)"

section \<open>Notions for stating the properties\<close>

text \<open>The records that \<open>start_event\<close> and \<open>end_event\<close> build for a kind the
  guard accepts.\<close>

definition start_of :: "string \<Rightarrow> pyval \<Rightarrow> Event" where
  "start_of k d = \<lparr>ev_kind = k, ev_status = START, ev_data = d, ev_exc_details = None\<rparr>"

definition end_of :: "string \<Rightarrow> pyval \<Rightarrow> exc_details option \<Rightarrow> Event" where
  "end_of k d x = \<lparr>ev_kind = k, ev_status = END, ev_data = d, ev_exc_details = x\<rparr>"

text \<open>
  Delivery to the entries of a fixed list, one after the other, up to the first
  failure. This is what the loop of \<open>broadcast\<close> comes to when no callback
  changes the list it walks (\<open>broadcast_loop_quiet\<close> below); it is not a part of
  the module.
\<close>

fun notify_each :: "nat list \<Rightarrow> Event \<Rightarrow> unit step" where
  "notify_each [] ev w = (Inr (), w)"
| "notify_each (r # rs) ev w =
     (case notify r ev w of
        (Inl e, w1) \<Rightarrow> (Inl e, w1)
      | (Inr u, w1) \<Rightarrow> notify_each rs ev w1)"

text \<open>
  A callback keeps the list of \<open>k\<close> when it never changes it, and never adds
  \<open>r\<close> to it when \<open>r\<close> is not in the list after the callback unless it was
  before. An object keeps the list (never adds \<open>r\<close>) when both its callbacks do;
  the built-in listeners do not touch the registry. The registry is quiet for
  \<open>k\<close> when every listener registered for \<open>k\<close> keeps the list of \<open>k\<close>.
\<close>

definition keeps_list :: "string \<Rightarrow> callback \<Rightarrow> bool" where
  "keeps_list k f = (\<forall>ev s reg. snd (snd (f ev s reg)) k = reg k)"

definition never_adds :: "string \<Rightarrow> nat \<Rightarrow> callback \<Rightarrow> bool" where
  "never_adds k r f = (\<forall>ev s reg. r \<notin> set (reg k) \<longrightarrow> r \<notin> set (snd (snd (f ev s reg)) k))"

definition obj_keeps_list :: "string \<Rightarrow> pyobj option \<Rightarrow> bool" where
  "obj_keeps_list k obj =
     (case obj of
        Some (CustomListener s f g) \<Rightarrow> keeps_list k f \<and> keeps_list k g
      | _ \<Rightarrow> True)"

definition obj_never_adds :: "string \<Rightarrow> nat \<Rightarrow> pyobj option \<Rightarrow> bool" where
  "obj_never_adds k r obj =
     (case obj of
        Some (CustomListener s f g) \<Rightarrow> never_adds k r f \<and> never_adds k r g
      | _ \<Rightarrow> True)"

definition quiet_for :: "string \<Rightarrow> world \<Rightarrow> bool" where
  "quiet_for k w = (\<forall>r \<in> set (registered w k). obj_keeps_list k (heap w r))"

text \<open>
  A caller that marks one event after the other,
  \<^verbatim>\<open>for data, body in calls: with mark_event(k, data): body()\<close>,
  and the events a listener of \<open>k\<close> is to see when every call returns.
\<close>

fun mark_events :: "string \<Rightarrow> (pyval \<times> unit prog) list \<Rightarrow> unit prog" where
  "mark_events k [] w = Some (Inr (), w)"
| "mark_events k (c # cs) w =
     (case mark_event k (fst c) (snd c) w of
        None \<Rightarrow> None
      | Some (Inl e, w1) \<Rightarrow> Some (Inl e, w1)
      | Some (Inr u, w1) \<Rightarrow> mark_events k cs w1)"

definition recorded_of :: "string \<Rightarrow> (pyval \<times> unit prog) list \<Rightarrow> Event list" where
  "recorded_of k cs =
     concat (map (\<lambda>c. [start_of k (fst c), end_of k (fst c) (Some no_exc)]) cs)"

section \<open>Scenarios\<close>

text \<open>
  Concrete listeners, bodies and worlds on which the theorems below are run. The
  kind \<open>job\<close> is a custom kind; references are indices into the list of objects;
  the readings of the clocks are small whole numbers, which floats subtract
  exactly.
\<close>

definition quiet :: callback where
  "quiet ev s reg = (None, s, reg)"

definition raising :: "exn \<Rightarrow> callback" where
  "raising e ev s reg = (Some e, s, reg)"

text \<open>Callbacks that call \<open>unregister(k, r)\<close> and \<open>register(k, r)\<close>.\<close>

definition unregistering :: "string \<Rightarrow> nat \<Rightarrow> callback" where
  "unregistering k r ev s reg = (None, s, reg(k := remove1 r (reg k)))"

definition registering :: "string \<Rightarrow> nat \<Rightarrow> callback" where
  "registering k r ev s reg = (None, s, reg(k := reg k @ [r]))"


definition body_error :: exn where
  "body_error = Exn (UserError ''BodyError'') ''body failed''"

text \<open>The bodies \<open>pass\<close> and \<open>raise e\<close>, and one that only lets time pass.\<close>

definition pass :: "unit prog" where
  "pass w = Some (Inr (), w)"

definition raise :: "exn \<Rightarrow> unit prog" where
  "raise e w = Some (Inl e, w)"

definition sleep :: "nat \<Rightarrow> unit prog" where
  "sleep n w = Some (Inr (), w\<lparr>instant := instant w + n\<rparr>)"

definition world_of :: "nat list \<Rightarrow> pyobj list \<Rightarrow> world" where
  "world_of rs objs =
     \<lparr>registered = (\<lambda>k. if k = ''job'' then rs else []),
      heap = (\<lambda>r. if r < length objs then Some (objs ! r) else None),
      next_ref = length objs, instant = 0,
      default_timer = (\<lambda>i. real i), time_time = (\<lambda>i. 1000 + real i),
      float_sub = (\<lambda>a b. a - b)\<rparr>"

definition empty_world :: world where
  "empty_world = world_of [] []"



definition world_recorder :: world where
  "world_recorder = world_of [0] [RecordingListener []]"



definition world_twice :: world where
  "world_twice = world_of [0, 1, 0] [RecordingListener [], RecordingListener []]"


definition world_registers :: world where
  "world_registers =
     world_of [0, 1]
       [CustomListener PyNone (registering ''job'' 1) quiet, RecordingListener []]"

text \<open>A recorder behind a listener that unregisters itself when it is ended.\<close>

definition world_leaves :: world where
  "world_leaves =
     world_of [0, 1]
       [CustomListener PyNone quiet (unregistering ''job'' 0), RecordingListener []]"

definition job_start :: Event where
  "job_start = start_of ''job'' PyNone"

definition two_calls :: "(pyval \<times> unit prog) list" where
  "two_calls = [(PyInt 1, pass), (PyInt 2, pass)]"

definition buffer_of :: "world \<Rightarrow> nat \<Rightarrow> (real \<times> Event) list" where
  "buffer_of w r = (case heap w r of Some (RecordingListener buf) \<Rightarrow> buf | _ \<Rightarrow> [])"

text \<open>What a statement returns, and the world it leaves.\<close>

definition outcome :: "'a prog \<Rightarrow> world \<Rightarrow> (exn + 'a) option" where
  "outcome m w = map_option fst (m w)"

definition world_after :: "'a prog \<Rightarrow> world \<Rightarrow> world" where
  "world_after m w = (case m w of Some (res, w') \<Rightarrow> w' | None \<Rightarrow> w)"







section \<open>What a notification may change\<close>

lemma guard_kind_cases:
  "guard_kind k = Inr k \<or> guard_kind k = Inl (InvalidEventKind k)"
  by (simp add: guard_kind_def)

lemma on_start_frame:
  assumes "on_start r ev w = (res, w')"
  shows "next_ref w' = next_ref w \<and> default_timer w' = default_timer w \<and>
         time_time w' = time_time w \<and> float_sub w' = float_sub w \<and>
         instant w \<le> instant w' \<and> (\<forall>r'. r' \<noteq> r \<longrightarrow> heap w' r' = heap w r')"
  using assms
  by (auto simp: on_start_def set_obj_def timer_def time_now_def
      split: option.splits pyobj.splits if_splits prod.splits)

lemma on_end_frame:
  assumes "on_end r ev w = (res, w')"
  shows "next_ref w' = next_ref w \<and> default_timer w' = default_timer w \<and>
         time_time w' = time_time w \<and> float_sub w' = float_sub w \<and>
         instant w \<le> instant w' \<and> (\<forall>r'. r' \<noteq> r \<longrightarrow> heap w' r' = heap w r')"
  using assms
  by (auto simp: on_end_def set_obj_def timer_def time_now_def
      split: option.splits pyobj.splits if_splits prod.splits)

lemma notify_frame:
  assumes "notify r ev w = (res, w')"
  shows "next_ref w' = next_ref w \<and> default_timer w' = default_timer w \<and>
         time_time w' = time_time w \<and> float_sub w' = float_sub w \<and>
         instant w \<le> instant w' \<and> (\<forall>r'. r' \<noteq> r \<longrightarrow> heap w' r' = heap w r')"
  using assms on_start_frame [of r ev w res w'] on_end_frame [of r ev w res w']
  by (auto simp: notify_def split: if_splits)

text \<open>A notification changes the state of a listener, never its callbacks.\<close>

lemma notify_obj_keeps:
  assumes "notify r ev w = (res, w')" and "obj_keeps_list k (heap w r')"
  shows "obj_keeps_list k (heap w' r')"
  using assms
  by (auto simp: notify_def on_start_def on_end_def set_obj_def timer_def time_now_def
      obj_keeps_list_def split: option.splits pyobj.splits if_splits prod.splits)

lemma notify_obj_never_adds:
  assumes "notify r ev w = (res, w')" and "obj_never_adds k x (heap w r')"
  shows "obj_never_adds k x (heap w' r')"
  using assms
  by (auto simp: notify_def on_start_def on_end_def set_obj_def timer_def time_now_def
      obj_never_adds_def split: option.splits pyobj.splits if_splits prod.splits)

lemma notify_keeps:
  assumes "notify r ev w = (res, w')" and "obj_keeps_list k (heap w r)"
  shows "registered w' k = registered w k"
  using assms
  by (auto simp: notify_def on_start_def on_end_def set_obj_def timer_def time_now_def
      obj_keeps_list_def keeps_list_def
      split: option.splits pyobj.splits if_splits prod.splits)
     (metis snd_conv)+

lemma notify_never_adds:
  assumes "notify r ev w = (res, w')" and "obj_never_adds k x (heap w r)"
    and "x \<notin> set (registered w k)"
  shows "x \<notin> set (registered w' k)"
  using assms
  by (auto simp: notify_def on_start_def on_end_def set_obj_def timer_def time_now_def
      obj_never_adds_def never_adds_def
      split: option.splits pyobj.splits if_splits prod.splits)
     (metis snd_conv)+

section \<open>Delivery over a fixed list\<close>

lemma notify_each_frame:
  "notify_each rs ev w = (res, w') \<Longrightarrow>
     next_ref w' = next_ref w \<and> default_timer w' = default_timer w \<and>
     time_time w' = time_time w \<and> float_sub w' = float_sub w \<and>
     instant w \<le> instant w' \<and> (\<forall>r'. r' \<notin> set rs \<longrightarrow> heap w' r' = heap w r')"
proof (induction rs arbitrary: w)
  case Nil
  then show ?case by simp
next
  case (Cons r rs)
  obtain res1 w1 where n: "notify r ev w = (res1, w1)"
    by (cases "notify r ev w")
  note f = notify_frame [OF n]
  show ?case
  proof (cases res1)
    case (Inl e)
    with Cons.prems n f show ?thesis by auto
  next
    case (Inr u)
    with Cons.prems n have "notify_each rs ev w1 = (res, w')" by simp
    from Cons.IH [OF this] f show ?thesis by auto
  qed
qed

lemma notify_each_keeps:
  "notify_each rs ev w = (res, w') \<Longrightarrow> \<forall>r \<in> set rs. obj_keeps_list k (heap w r) \<Longrightarrow>
     registered w' k = registered w k"
proof (induction rs arbitrary: w)
  case Nil
  then show ?case by simp
next
  case (Cons r rs)
  obtain res1 w1 where n: "notify r ev w = (res1, w1)"
    by (cases "notify r ev w")
  from Cons.prems(2) have kr: "obj_keeps_list k (heap w r)" by simp
  from notify_keeps [OF n kr] have r1: "registered w1 k = registered w k" .
  show ?case
  proof (cases res1)
    case (Inl e)
    with Cons.prems(1) n r1 show ?thesis by auto
  next
    case (Inr u)
    with Cons.prems(1) n have rest: "notify_each rs ev w1 = (res, w')" by simp
    from Cons.prems(2) have "\<forall>x \<in> set rs. obj_keeps_list k (heap w1 x)"
      using notify_obj_keeps [OF n] by simp
    from Cons.IH [OF rest this] r1 show ?thesis by simp
  qed
qed

lemma notify_each_obj_keeps:
  "notify_each rs ev w = (res, w') \<Longrightarrow> obj_keeps_list k (heap w r') \<Longrightarrow>
     obj_keeps_list k (heap w' r')"
proof (induction rs arbitrary: w)
  case Nil
  then show ?case by simp
next
  case (Cons r rs)
  obtain res1 w1 where n: "notify r ev w = (res1, w1)"
    by (cases "notify r ev w")
  from notify_obj_keeps [OF n Cons.prems(2)] have k1: "obj_keeps_list k (heap w1 r')" .
  show ?case
  proof (cases res1)
    case (Inl e)
    with Cons.prems(1) n k1 show ?thesis by auto
  next
    case (Inr u)
    with Cons.prems(1) n have "notify_each rs ev w1 = (res, w')" by simp
    from Cons.IH [OF this k1] show ?thesis .
  qed
qed





lemma notify_recording:
  assumes "heap w r = Some (RecordingListener buf)"
  shows "notify r ev w =
     (Inr (), set_obj r (RecordingListener (buf @ [(time_time w (instant w), ev)]))
                (w\<lparr>instant := Suc (instant w)\<rparr>))"
  using assms
  by (cases "ev_status ev")
     (simp_all add: notify_def is_start_def is_end_def on_start_def on_end_def time_now_def)

text \<open>Where the entries of a recording listener come from: one wall-clock reading
  per occurrence reached, at instants that increase.\<close>

lemma notify_each_recording_at:
  "heap w r = Some (RecordingListener buf) \<Longrightarrow> notify_each rs ev w = (res, w') \<Longrightarrow>
     \<exists>js. length js \<le> count_list rs r \<and> (res = Inr () \<longrightarrow> length js = count_list rs r) \<and>
          sorted_wrt (<) js \<and> (\<forall>j \<in> set js. instant w \<le> j \<and> j < instant w') \<and>
          heap w' r = Some (RecordingListener (buf @ map (\<lambda>j. (time_time w j, ev)) js))"
proof (induction rs arbitrary: w buf)
  case Nil
  then have "length ([]::nat list) \<le> count_list [] r"
    "res = Inr () \<longrightarrow> length ([]::nat list) = count_list [] r"
    "sorted_wrt (<) ([]::nat list)" "\<forall>j \<in> set ([]::nat list). instant w \<le> j \<and> j < instant w'"
    "heap w' r = Some (RecordingListener (buf @ map (\<lambda>j. (time_time w j, ev)) []))"
    by simp_all
  then show ?case by blast
next
  case (Cons a rs)
  obtain res1 w1 where n: "notify a ev w = (res1, w1)"
    by (cases "notify a ev w")
  note fr = notify_frame [OF n]
  show ?case
  proof (cases "a = r")
    case True
    with n Cons.prems(1) have r1: "res1 = Inr ()"
      and h1: "heap w1 r = Some (RecordingListener (buf @ [(time_time w (instant w), ev)]))"
      and i1: "instant w1 = Suc (instant w)"
      by (auto simp: notify_recording set_obj_def)
    from Cons.prems(2) n r1 have rest: "notify_each rs ev w1 = (res, w')" by simp
    from Cons.IH [OF h1 rest] obtain js where
      js: "length js \<le> count_list rs r" "res = Inr () \<longrightarrow> length js = count_list rs r"
        "sorted_wrt (<) js" "\<forall>j \<in> set js. instant w1 \<le> j \<and> j < instant w'"
        "heap w' r = Some (RecordingListener
           ((buf @ [(time_time w (instant w), ev)]) @ map (\<lambda>j. (time_time w1 j, ev)) js))"
      by blast
    from notify_each_frame [OF rest] i1 have lt: "instant w < instant w'" by simp
    have "length (instant w # js) \<le> count_list (a # rs) r"
      "res = Inr () \<longrightarrow> length (instant w # js) = count_list (a # rs) r"
      "sorted_wrt (<) (instant w # js)"
      "\<forall>j \<in> set (instant w # js). instant w \<le> j \<and> j < instant w'"
      "heap w' r = Some (RecordingListener
           (buf @ map (\<lambda>j. (time_time w j, ev)) (instant w # js)))"
      using js True i1 lt fr by auto
    then show ?thesis by blast
  next
    case False
    from fr False Cons.prems(1)
    have h1: "heap w1 r = Some (RecordingListener buf)" by simp
    from fr have le: "instant w \<le> instant w1" by simp
    show ?thesis
    proof (cases res1)
      case (Inl e)
      with Cons.prems(2) n have "res = Inl e" "w' = w1" by simp_all
      with h1 have "length ([]::nat list) \<le> count_list (a # rs) r"
        "res = Inr () \<longrightarrow> length ([]::nat list) = count_list (a # rs) r"
        "sorted_wrt (<) ([]::nat list)"
        "\<forall>j \<in> set ([]::nat list). instant w \<le> j \<and> j < instant w'"
        "heap w' r = Some (RecordingListener (buf @ map (\<lambda>j. (time_time w j, ev)) []))"
        by simp_all
      then show ?thesis by blast
    next
      case (Inr u)
      with Cons.prems(2) n have rest: "notify_each rs ev w1 = (res, w')" by simp
      from Cons.IH [OF h1 rest] obtain js where
        js: "length js \<le> count_list rs r" "res = Inr () \<longrightarrow> length js = count_list rs r"
          "sorted_wrt (<) js" "\<forall>j \<in> set js. instant w1 \<le> j \<and> j < instant w'"
          "heap w' r = Some (RecordingListener (buf @ map (\<lambda>j. (time_time w1 j, ev)) js))"
        by blast
      have "length js \<le> count_list (a # rs) r"
        "res = Inr () \<longrightarrow> length js = count_list (a # rs) r"
        "sorted_wrt (<) js"
        "\<forall>j \<in> set js. instant w \<le> j \<and> j < instant w'"
        "heap w' r = Some (RecordingListener (buf @ map (\<lambda>j. (time_time w j, ev)) js))"
        using js False le fr by auto
      then show ?thesis by blast
    qed
  qed
qed

lemma notify_each_recording:
  assumes "heap w r = Some (RecordingListener buf)" and "notify_each rs ev w = (res, w')"
  shows "\<exists>ts. length ts \<le> count_list rs r \<and> (res = Inr () \<longrightarrow> length ts = count_list rs r) \<and>
          heap w' r = Some (RecordingListener (buf @ map (\<lambda>t. (t, ev)) ts))"
proof -
  from notify_each_recording_at [OF assms] obtain js where
    js: "length js \<le> count_list rs r" "res = Inr () \<longrightarrow> length js = count_list rs r"
      "heap w' r = Some (RecordingListener (buf @ map (\<lambda>j. (time_time w j, ev)) js))"
    by blast
  have "length (map (time_time w) js) \<le> count_list rs r"
    "res = Inr () \<longrightarrow> length (map (time_time w) js) = count_list rs r"
    "heap w' r = Some (RecordingListener (buf @ map (\<lambda>t. (t, ev)) (map (time_time w) js)))"
    using js by (simp_all add: comp_def)
  then show ?thesis by blast
qed


section \<open>The loop of broadcast\<close>

text \<open>When the registry is quiet for the kind, the loop delivers to the list as it
  stood when the loop began, and it returns.\<close>

lemma broadcast_loop_quiet:
  "quiet_for k w \<Longrightarrow> i \<le> length (registered w k) \<Longrightarrow>
     broadcast_loop k i ev w = Some (notify_each (drop i (registered w k)) ev w)"
proof (induction "length (registered w k) - i" arbitrary: i w)
  case 0
  then show ?case by (simp add: broadcast_loop.simps)
next
  case (Suc n)
  let ?L = "registered w k"
  from Suc.hyps(2) have lt: "i < length ?L" by simp
  then have d: "drop i ?L = ?L ! i # drop (Suc i) ?L"
    by (simp add: Cons_nth_drop_Suc)
  obtain res1 w1 where nt: "notify (?L ! i) ev w = (res1, w1)"
    by (cases "notify (?L ! i) ev w")
  from Suc.prems(1) lt have kp: "obj_keeps_list k (heap w (?L ! i))"
    by (simp add: quiet_for_def)
  from notify_keeps [OF nt kp] have r1: "registered w1 k = ?L" .
  from Suc.prems(1) r1 have q1: "quiet_for k w1"
    using notify_obj_keeps [OF nt] by (simp add: quiet_for_def)
  show ?case
  proof (cases res1)
    case (Inl e)
    with lt nt d show ?thesis
      by (subst broadcast_loop.simps) simp
  next
    case (Inr u)
    from Suc.hyps(2) r1 have m: "n = length (registered w1 k) - Suc i" by simp
    from lt r1 have le: "Suc i \<le> length (registered w1 k)" by simp
    from Suc.hyps(1) [OF m q1 le] r1
    have "broadcast_loop k (Suc i) ev w1 = Some (notify_each (drop (Suc i) ?L) ev w1)"
      by simp
    with Inr lt nt d show ?thesis
      by (subst broadcast_loop.simps) simp
  qed
qed

lemma broadcast_quiet:
  assumes "quiet_for (ev_kind ev) w"
  shows "broadcast ev w = Some (notify_each (registered w (ev_kind ev)) ev w)"
  using broadcast_loop_quiet [OF assms, of 0 ev] by (simp add: broadcast_def)

lemma notify_each_quiet:
  assumes "quiet_for k w" and "notify_each (registered w k) ev w = (res, w')"
  shows "registered w' k = registered w k \<and> quiet_for k w'"
proof -
  from assms(1) have a: "\<forall>r \<in> set (registered w k). obj_keeps_list k (heap w r)"
    by (simp add: quiet_for_def)
  from notify_each_keeps [OF assms(2) a] have r: "registered w' k = registered w k" .
  from a r notify_each_obj_keeps [OF assms(2)] have "quiet_for k w'"
    by (simp add: quiet_for_def)
  with r show ?thesis by simp
qed

text \<open>In general the loop can still be followed round by round.\<close>


text \<open>In general the loop is followed round by round: what every round keeps
  holds when the loop returns.\<close>

lemma broadcast_loop_invariant:
  assumes run: "broadcast_loop k i ev w = Some y"
    and init: "I w"
    and step: "\<And>s j res1 s1. I s \<Longrightarrow> j < length (registered s k) \<Longrightarrow>
                 notify (registered s k ! j) ev s = (res1, s1) \<Longrightarrow> I s1"
  shows "I (snd y)"
proof -
  have "k = k \<longrightarrow> ev = ev \<longrightarrow> I w \<longrightarrow> I (snd y)"
  proof (rule broadcast_loop.raw_induct [where P = "\<lambda>k' i ev' w y.
       k' = k \<longrightarrow> ev' = ev \<longrightarrow> I w \<longrightarrow> I (snd y)", OF _ run])
    fix f k' i ev' w y
    assume IH: "\<And>k' i ev' w y. f k' i ev' w = Some y \<Longrightarrow>
        k' = k \<longrightarrow> ev' = ev \<longrightarrow> I w \<longrightarrow> I (snd y)"
      and eq: "(if i < length (registered w k')
        then case notify (registered w k' ! i) ev' w of
             (Inl e, w1) \<Rightarrow> Some (Inl e, w1)
             | (Inr u, w1) \<Rightarrow> f k' (Suc i) ev' w1
        else Some (Inr (), w)) = Some y"
    show "k' = k \<longrightarrow> ev' = ev \<longrightarrow> I w \<longrightarrow> I (snd y)"
    proof (intro impI)
      assume k: "k' = k" and e: "ev' = ev" and iw: "I w"
      show "I (snd y)"
      proof (cases "i < length (registered w k)")
        case False
        with eq k iw show ?thesis by auto
      next
        case True
        obtain res1 w1 where nt: "notify (registered w k ! i) ev w = (res1, w1)"
          by (cases "notify (registered w k ! i) ev w")
        from step [OF iw True nt] have i1: "I w1" .
        show ?thesis
        proof (cases res1)
          case (Inl x)
          with eq k e True nt i1 show ?thesis by auto
        next
          case (Inr u)
          with eq k e True nt have "f k (Suc i) ev w1 = Some y" by simp
          from IH [OF this] i1 show ?thesis by simp
        qed
      qed
    qed
  qed
  with init show ?thesis by simp
qed


text \<open>Whatever the callbacks do to the list, a recording listener only gets
  entries that hold the event being broadcast.\<close>

lemma broadcast_loop_recording:
  assumes run: "broadcast_loop k i ev w = Some (res, w')"
    and h: "heap w r = Some (RecordingListener buf)"
  shows "\<exists>ts. heap w' r = Some (RecordingListener (buf @ map (\<lambda>t. (t, ev)) ts))"
proof -
  have "\<exists>ts. heap (snd (res, w')) r = Some (RecordingListener (buf @ map (\<lambda>t. (t, ev)) ts))"
  proof (rule broadcast_loop_invariant [OF run, where I = "\<lambda>s.
     \<exists>ts. heap s r = Some (RecordingListener (buf @ map (\<lambda>t. (t, ev)) ts))"])
    from h have "heap w r = Some (RecordingListener (buf @ map (\<lambda>t. (t, ev)) []))" by simp
    then show "\<exists>ts. heap w r = Some (RecordingListener (buf @ map (\<lambda>t. (t, ev)) ts))"
      by blast
  next
    fix s j res1 s1
    assume "\<exists>ts. heap s r = Some (RecordingListener (buf @ map (\<lambda>t. (t, ev)) ts))"
      and n: "notify (registered s k ! j) ev s = (res1, s1)"
    then obtain ts where
      ts: "heap s r = Some (RecordingListener (buf @ map (\<lambda>t. (t, ev)) ts))" by blast
    show "\<exists>ts. heap s1 r = Some (RecordingListener (buf @ map (\<lambda>t. (t, ev)) ts))"
    proof (cases "registered s k ! j = r")
      case True
      with n notify_recording [OF ts, of ev]
      have "heap s1 r = Some (RecordingListener
          (buf @ map (\<lambda>t. (t, ev)) (ts @ [time_time s (instant s)])))"
        by (auto simp: set_obj_def)
      then show ?thesis by blast
    next
      case False
      with notify_frame [OF n] ts
      have "heap s1 r = Some (RecordingListener (buf @ map (\<lambda>t. (t, ev)) ts))" by simp
      then show ?thesis by blast
    qed
  qed
  then show ?thesis by simp
qed

text \<open>A listener that is not in the list, and that no callback adds to it, is
  not notified.\<close>

lemma broadcast_loop_not_notified:
  assumes run: "broadcast_loop k i ev w = Some (res, w')"
    and out: "x \<notin> set (registered w k)"
    and na: "\<forall>r. obj_never_adds k x (heap w r)"
  shows "heap w' x = heap w x \<and> x \<notin> set (registered w' k)"
proof -
  have "x \<notin> set (registered (snd (res, w')) k) \<and>
      (\<forall>r. obj_never_adds k x (heap (snd (res, w')) r)) \<and> heap (snd (res, w')) x = heap w x"
  proof (rule broadcast_loop_invariant [OF run, where I = "\<lambda>s.
     x \<notin> set (registered s k) \<and> (\<forall>r. obj_never_adds k x (heap s r)) \<and> heap s x = heap w x"])
    from out na show "x \<notin> set (registered w k) \<and> (\<forall>r. obj_never_adds k x (heap w r)) \<and>
        heap w x = heap w x" by simp
  next
    fix s j res1 s1
    assume a: "x \<notin> set (registered s k) \<and> (\<forall>r. obj_never_adds k x (heap s r)) \<and>
        heap s x = heap w x"
      and j: "j < length (registered s k)"
      and n: "notify (registered s k ! j) ev s = (res1, s1)"
    from a j have ne: "x \<noteq> registered s k ! j"
      by (metis nth_mem)
    from a have 1: "x \<notin> set (registered s1 k)"
      using notify_never_adds [OF n] by blast
    from a have 2: "\<forall>r. obj_never_adds k x (heap s1 r)"
      using notify_obj_never_adds [OF n] by blast
    from notify_frame [OF n] ne a have 3: "heap s1 x = heap w x" by simp
    from 1 2 3 show "x \<notin> set (registered s1 k) \<and> (\<forall>r. obj_never_adds k x (heap s1 r)) \<and>
        heap s1 x = heap w x" by blast
  qed
  then show ?thesis by simp
qed


section \<open>The scopes, path by path\<close>

lemmas run_defs =
  mark_event_def ExitStack_scope_def pbind_def try_finally_def lift_def exit_details_def
  exc_info_def no_exc_def start_event_def end_event_def Event_init_def guard_kind_def
  startswith_def builtin_kinds_def broadcast_def notify_def is_start_def is_end_def
  on_start_def on_end_def set_obj_def time_now_def timer_def world_of_def quiet_def
  raising_def unregistering_def pass_def raise_def sleep_def buffer_of_def
  start_of_def end_of_def outcome_def world_after_def broadcast_loop.simps

lemmas quiet_defs = quiet_for_def obj_keeps_list_def keeps_list_def

lemma outcomeD:
  "outcome m w = Some res \<Longrightarrow> m w = Some (res, world_after m w)"
  by (auto simp: outcome_def world_after_def)

lemma mark_event_unfold:
  "mark_event k d body w =
     (case start_event k d w of
        None \<Rightarrow> None
      | Some (Inl e, w1) \<Rightarrow>
          (case end_event k d (Some (exc_info e)) w1 of
             None \<Rightarrow> None
           | Some (Inl x, w2) \<Rightarrow> Some (Inl x, w2)
           | Some (Inr u, w2) \<Rightarrow> Some (Inl e, w2))
      | Some (Inr u, w1) \<Rightarrow>
          (case body w1 of
             None \<Rightarrow> None
           | Some (res, w2) \<Rightarrow>
               (case end_event k d (Some (exit_details res)) w2 of
                  None \<Rightarrow> None
                | Some (Inl x, w3) \<Rightarrow> Some (Inl x, w3)
                | Some (Inr u, w3) \<Rightarrow> Some (res, w3))))"
  by (auto simp: mark_event_def ExitStack_scope_def pbind_def exit_details_def
      split: prod.splits sum.splits option.splits)

lemma emission_valid:
  assumes "guard_kind k = Inr k"
  shows "start_event k d w = broadcast_loop k 0 (start_of k d) w"
    and "end_event k d x w = broadcast_loop k 0 (end_of k d x) w"
  using assms
  by (simp_all add: start_event_def end_event_def Event_init_def broadcast_def
      start_of_def end_of_def)

lemma emission_invalid:
  assumes "guard_kind k \<noteq> Inr k"
  shows "start_event k d w = Some (Inl (InvalidEventKind k), w)"
    and "end_event k d x w = Some (Inl (InvalidEventKind k), w)"
  using assms guard_kind_cases [of k]
  by (auto simp: start_event_def end_event_def Event_init_def)

lemma emission_quiet:
  assumes "guard_kind k = Inr k" and "quiet_for k w"
  shows "start_event k d w = Some (notify_each (registered w k) (start_of k d) w)"
    and "end_event k d x w = Some (notify_each (registered w k) (end_of k d x) w)"
  using assms broadcast_loop_quiet [of k w 0]
  by (simp_all add: emission_valid)

lemma emission_ok_valid:
  "start_event k d w = Some (Inr u, w') \<Longrightarrow> guard_kind k = Inr k"
  "end_event k d x w = Some (Inr u, w') \<Longrightarrow> guard_kind k = Inr k"
  using guard_kind_cases [of k]
  by (auto simp: start_event_def end_event_def Event_init_def)



lemma mark_event_returns:
  assumes "mark_event k d body w = Some (Inr u, w')"
  shows "\<exists>w1 w2. start_event k d w = Some (Inr (), w1) \<and> body w1 = Some (Inr (), w2) \<and>
           end_event k d (Some no_exc) w2 = Some (Inr (), w')"
  using assms
  by (auto simp: mark_event_unfold exit_details_def split: prod.splits sum.splits option.splits)

text \<open>What a recording listener holds after an emission.\<close>

lemma emission_recorded:
  assumes h: "heap w r = Some (RecordingListener buf)"
  shows "start_event k d w = Some (res, w') \<Longrightarrow>
      \<exists>ts. heap w' r = Some (RecordingListener (buf @ map (\<lambda>t. (t, start_of k d)) ts)) \<and>
           (quiet_for k w \<and> res = Inr () \<longrightarrow> length ts = count_list (registered w k) r)"
    and "end_event k d x w = Some (res, w') \<Longrightarrow>
      \<exists>ts. heap w' r = Some (RecordingListener (buf @ map (\<lambda>t. (t, end_of k d x)) ts)) \<and>
           (quiet_for k w \<and> res = Inr () \<longrightarrow> length ts = count_list (registered w k) r)"
proof -
  have gen: "\<exists>ts. heap w' r = Some (RecordingListener (buf @ map (\<lambda>t. (t, ev)) ts)) \<and>
           (quiet_for k w \<and> res = Inr () \<longrightarrow> length ts = count_list (registered w k) r)"
    if run: "broadcast_loop k 0 ev w = Some (res, w')" for ev
  proof (cases "quiet_for k w")
    case True
    with run have "notify_each (registered w k) ev w = (res, w')"
      using broadcast_loop_quiet [OF True, of 0 ev] by simp
    from notify_each_recording [OF h this] show ?thesis by blast
  next
    case False
    with broadcast_loop_recording [OF run h] show ?thesis by blast
  qed
  have inv: "\<exists>ts. heap w' r = Some (RecordingListener (buf @ map (\<lambda>t. (t, ev)) ts)) \<and>
           (quiet_for k w \<and> res = Inr () \<longrightarrow> length ts = count_list (registered w k) r)"
    if "w' = w" and "res \<noteq> Inr ()" for ev
  proof -
    from that h have "heap w' r = Some (RecordingListener (buf @ map (\<lambda>t. (t, ev)) []))"
      "quiet_for k w \<and> res = Inr () \<longrightarrow> length ([]::real list) = count_list (registered w k) r"
      by simp_all
    then show ?thesis by blast
  qed
  show "start_event k d w = Some (res, w') \<Longrightarrow>
      \<exists>ts. heap w' r = Some (RecordingListener (buf @ map (\<lambda>t. (t, start_of k d)) ts)) \<and>
           (quiet_for k w \<and> res = Inr () \<longrightarrow> length ts = count_list (registered w k) r)"
  proof (cases "guard_kind k = Inr k")
    case True
    assume "start_event k d w = Some (res, w')"
    with True show ?thesis by (simp add: emission_valid gen)
  next
    case False
    assume "start_event k d w = Some (res, w')"
    with emission_invalid(1) [OF False, of d w] have "w' = w" "res \<noteq> Inr ()" by auto
    then show ?thesis by (rule inv)
  qed
  show "end_event k d x w = Some (res, w') \<Longrightarrow>
      \<exists>ts. heap w' r = Some (RecordingListener (buf @ map (\<lambda>t. (t, end_of k d x)) ts)) \<and>
           (quiet_for k w \<and> res = Inr () \<longrightarrow> length ts = count_list (registered w k) r)"
  proof (cases "guard_kind k = Inr k")
    case True
    assume "end_event k d x w = Some (res, w')"
    with True show ?thesis by (simp add: emission_valid gen)
  next
    case False
    assume "end_event k d x w = Some (res, w')"
    with emission_invalid(2) [OF False, of d x w] have "w' = w" "res \<noteq> Inr ()" by auto
    then show ?thesis by (rule inv)
  qed
qed

lemma mark_event_recorded:
  assumes s: "start_event k d w = Some (Inr (), w1)"
    and b: "body w1 = Some (res, w2)"
    and e: "end_event k d (Some (exit_details res)) w2 = Some (Inr (), w3)"
    and h: "heap w r = Some (RecordingListener buf)"
    and p: "heap w2 r = heap w1 r"
  shows "\<exists>ts1 ts2.
           (quiet_for k w \<longrightarrow> length ts1 = count_list (registered w k) r) \<and>
           (quiet_for k w2 \<longrightarrow> length ts2 = count_list (registered w2 k) r) \<and>
           heap w3 r = Some (RecordingListener
             (buf @ map (\<lambda>t. (t, start_of k d)) ts1 @
                    map (\<lambda>t. (t, end_of k d (Some (exit_details res)))) ts2))"
proof -
  from emission_recorded(1) [OF h s] obtain ts1 where
    t1: "quiet_for k w \<longrightarrow> length ts1 = count_list (registered w k) r"
      "heap w1 r = Some (RecordingListener (buf @ map (\<lambda>t. (t, start_of k d)) ts1))"
    by auto
  from t1(2) p have h2: "heap w2 r =
      Some (RecordingListener (buf @ map (\<lambda>t. (t, start_of k d)) ts1))"
    by simp
  from emission_recorded(2) [OF h2 e] obtain ts2 where
    t2: "quiet_for k w2 \<longrightarrow> length ts2 = count_list (registered w2 k) r"
      "heap w3 r = Some (RecordingListener
         ((buf @ map (\<lambda>t. (t, start_of k d)) ts1) @
           map (\<lambda>t. (t, end_of k d (Some (exit_details res)))) ts2))"
    by auto
  from t1(1) t2 show ?thesis by auto
qed


lemma mark_event_recorded_once:
  assumes h: "heap w r = Some (RecordingListener buf)"
    and c: "count_list (registered w k) r = 1"
    and q: "quiet_for k w"
    and pres: "\<forall>s res s'. body s = Some (res, s') \<longrightarrow>
                  heap s' r = heap s r \<and> registered s' k = registered s k \<and>
                  time_time s' = time_time s \<and> instant s \<le> instant s' \<and>
                  (quiet_for k s \<longrightarrow> quiet_for k s')"
    and m: "mark_event k d body w = Some (Inr (), w')"
  shows "\<exists>j1 j2. instant w \<le> j1 \<and> j1 < j2 \<and> j2 < instant w' \<and>
           heap w' r = Some (RecordingListener
             (buf @ [(time_time w j1, start_of k d),
                     (time_time w j2, end_of k d (Some no_exc))])) \<and>
           registered w' k = registered w k \<and> time_time w' = time_time w \<and> quiet_for k w'"
proof -
  from mark_event_returns [OF m] obtain w1 w2 where
    s: "start_event k d w = Some (Inr (), w1)" and b: "body w1 = Some (Inr (), w2)" and
    e: "end_event k d (Some no_exc) w2 = Some (Inr (), w')" by blast
  from s have g: "guard_kind k = Inr k" by (rule emission_ok_valid)
  from s g q have s': "notify_each (registered w k) (start_of k d) w = (Inr (), w1)"
    by (simp add: emission_quiet)
  note f1 = notify_each_frame [OF s']
  from notify_each_quiet [OF q s'] have q1: "registered w1 k = registered w k" "quiet_for k w1"
    by simp_all
  from pres b q1 have
    pb: "heap w2 r = heap w1 r" "registered w2 k = registered w1 k"
      "time_time w2 = time_time w1" "instant w1 \<le> instant w2" "quiet_for k w2"
    by blast+
  from e g pb(5) have e': "notify_each (registered w2 k) (end_of k d (Some no_exc)) w2 =
      (Inr (), w')"
    by (simp add: emission_quiet)
  note f2 = notify_each_frame [OF e']
  from notify_each_quiet [OF pb(5) e'] have q3: "registered w' k = registered w2 k"
    "quiet_for k w'" by simp_all
  from notify_each_recording_at [OF h s'] c obtain js1 where
    l1: "length js1 = 1" and b1: "\<forall>j \<in> set js1. instant w \<le> j \<and> j < instant w1"
      and h1: "heap w1 r = Some (RecordingListener
                 (buf @ map (\<lambda>j. (time_time w j, start_of k d)) js1))"
    by auto
  from l1 obtain j1 where j1: "js1 = [j1]"
    by (cases js1) auto
  from h1 pb(1) j1 have h2: "heap w2 r =
      Some (RecordingListener (buf @ [(time_time w j1, start_of k d)]))" by simp
  from c pb(2) q1 have c2: "count_list (registered w2 k) r = 1" by simp
  from notify_each_recording_at [OF h2 e'] c2 obtain js2 where
    l2: "length js2 = 1" and b2: "\<forall>j \<in> set js2. instant w2 \<le> j \<and> j < instant w'"
      and h3: "heap w' r = Some (RecordingListener
                 ((buf @ [(time_time w j1, start_of k d)]) @
                  map (\<lambda>j. (time_time w2 j, end_of k d (Some no_exc))) js2))"
    by auto
  from l2 obtain j2 where j2: "js2 = [j2]"
    by (cases js2) auto
  from f1 pb(3) have tt: "time_time w2 = time_time w" by simp
  from b1 j1 b2 j2 pb(4) have o: "instant w \<le> j1" "j1 < j2" "j2 < instant w'"
    by simp_all
  from h3 j2 tt have hf: "heap w' r = Some (RecordingListener
             (buf @ [(time_time w j1, start_of k d),
                     (time_time w j2, end_of k d (Some no_exc))]))" by simp
  from q1 q3 pb(2) have rg: "registered w' k = registered w k" by simp
  from f2 tt have tf: "time_time w' = time_time w" by simp
  from o hf rg tf q3(2) show ?thesis by blast
qed

lemma mark_events_recorded:
  assumes pres: "\<forall>c \<in> set cs. \<forall>s res s'. snd c s = Some (res, s') \<longrightarrow>
                  heap s' r = heap s r \<and> registered s' k = registered s k \<and>
                  time_time s' = time_time s \<and> instant s \<le> instant s' \<and>
                  (quiet_for k s \<longrightarrow> quiet_for k s')"
  shows "heap w r = Some (RecordingListener buf) \<Longrightarrow> count_list (registered w k) r = 1 \<Longrightarrow>
     quiet_for k w \<Longrightarrow> mark_events k cs w = Some (Inr (), w') \<Longrightarrow>
     \<exists>js. length js = 2 * length cs \<and> sorted_wrt (<) js \<and>
          (\<forall>j \<in> set js. instant w \<le> j \<and> j < instant w') \<and>
          instant w \<le> instant w' \<and>
          heap w' r = Some (RecordingListener
            (buf @ zip (map (time_time w) js) (recorded_of k cs)))"
  using pres
proof (induction cs arbitrary: w buf)
  case Nil
  then have "length ([]::nat list) = 2 * length ([]::(pyval \<times> unit prog) list)"
    "sorted_wrt (<) ([]::nat list)"
    "\<forall>j \<in> set ([]::nat list). instant w \<le> j \<and> j < instant w'"
    "instant w \<le> instant w'"
    "heap w' r = Some (RecordingListener
            (buf @ zip (map (time_time w) []) (recorded_of k [])))"
    by simp_all
  then show ?case by blast
next
  case (Cons c cs)
  from Cons.prems(4) obtain w1 where m': "mark_event k (fst c) (snd c) w = Some (Inr (), w1)"
    and rest: "mark_events k cs w1 = Some (Inr (), w')"
    by (auto split: option.splits sum.splits prod.splits)
  from Cons.prems(5) have pc: "\<forall>s res s'. snd c s = Some (res, s') \<longrightarrow>
                  heap s' r = heap s r \<and> registered s' k = registered s k \<and>
                  time_time s' = time_time s \<and> instant s \<le> instant s' \<and>
                  (quiet_for k s \<longrightarrow> quiet_for k s')"
    and pcs: "\<forall>c \<in> set cs. \<forall>s res s'. snd c s = Some (res, s') \<longrightarrow>
                  heap s' r = heap s r \<and> registered s' k = registered s k \<and>
                  time_time s' = time_time s \<and> instant s \<le> instant s' \<and>
                  (quiet_for k s \<longrightarrow> quiet_for k s')"
    by simp_all
  from mark_event_recorded_once [OF Cons.prems(1) Cons.prems(2) Cons.prems(3) pc m']
  obtain j1 j2 where
    o: "instant w \<le> j1" "j1 < j2" "j2 < instant w1" and
    h1: "heap w1 r = Some (RecordingListener
             (buf @ [(time_time w j1, start_of k (fst c)),
                     (time_time w j2, end_of k (fst c) (Some no_exc))]))" and
    rg: "registered w1 k = registered w k" and tt: "time_time w1 = time_time w" and
    q1: "quiet_for k w1"
    by blast
  from Cons.prems(2) rg have c1: "count_list (registered w1 k) r = 1" by simp
  from Cons.IH [OF h1 c1 q1 rest pcs] obtain js where
    js: "length js = 2 * length cs" "sorted_wrt (<) js"
      "\<forall>j \<in> set js. instant w1 \<le> j \<and> j < instant w'"
      "instant w1 \<le> instant w'"
      "heap w' r = Some (RecordingListener
            ((buf @ [(time_time w j1, start_of k (fst c)),
                     (time_time w j2, end_of k (fst c) (Some no_exc))]) @
             zip (map (time_time w1) js) (recorded_of k cs)))"
    by blast
  have 1: "length (j1 # j2 # js) = 2 * length (c # cs)"
    using js(1) by simp
  have 2: "sorted_wrt (<) (j1 # j2 # js)"
    using js(2,3) o by auto
  have 3: "\<forall>j \<in> set (j1 # j2 # js). instant w \<le> j \<and> j < instant w'"
    using js(3,4) o by auto
  have 4: "instant w \<le> instant w'"
    using js(4) o by simp
  have 5: "heap w' r = Some (RecordingListener
            (buf @ zip (map (time_time w) (j1 # j2 # js)) (recorded_of k (c # cs))))"
    using js(5) tt by (simp add: recorded_of_def)
  from 1 2 3 4 5 show ?case by blast
qed

lemma recorded_of_shape:
  "length (recorded_of k cs) = 2 * length cs \<and>
   map ev_status (recorded_of k cs) = concat (replicate (length cs) [START, END])"
  by (induction cs) (simp_all add: recorded_of_def start_of_def end_of_def)



section \<open>Removing the first entry\<close>

lemma remove1_first:
  "r \<in> set xs \<Longrightarrow> \<exists>pre post. xs = pre @ r # post \<and> r \<notin> set pre \<and> remove1 r xs = pre @ post"
proof -
  assume "r \<in> set xs"
  then obtain pre post where s: "xs = pre @ r # post" "r \<notin> set pre"
    by (auto dest: split_list_first)
  then have "remove1 r xs = pre @ post"
    by (simp add: remove1_append)
  with s show ?thesis by blast
qed

lemma count_list_remove1:
  "r \<in> set xs \<Longrightarrow> count_list xs r = Suc (count_list (remove1 r xs) r)"
  by (induction xs) auto

section \<open>The timing listener, one callback at a time\<close>









section \<open>The scope of mark_event\<close>









section \<open>The guard at every use site\<close>

text \<open>
  C3. A kind without the reserved prefix passes the guard unchanged. A kind with
  the prefix passes (unchanged) exactly when it is one of the built-in kinds, and
  is refused with \<open>InvalidEventKind\<close> otherwise. Every use site applies the guard:
  a refused kind makes the construction of an event, both emission functions and
  (for a listener object) \<open>register\<close> and \<open>unregister\<close> fail with that error and
  leave the world as it was; an accepted kind is the one they go on with.
\<close>

theorem guard_kind_spec:
  "(\<not> startswith k ''numba:'' \<longrightarrow> guard_kind k = Inr k) \<and>
   (startswith k ''numba:'' \<longrightarrow>
      ((guard_kind k = Inr k) = (k \<in> builtin_kinds)) \<and>
      ((\<exists>k'. guard_kind k = Inr k') = (k \<in> builtin_kinds)) \<and>
      (k \<notin> builtin_kinds \<longrightarrow> guard_kind k = Inl (InvalidEventKind k))) \<and>
   (guard_kind k = Inl e \<longrightarrow>
      Event_init k st d x = Inl e \<and>
      start_event k d w = Some (Inl e, w) \<and>
      end_event k d x w = Some (Inl e, w) \<and>
      (isinstance_Listener w r \<longrightarrow>
         register k r w = (Inl e, w) \<and> unregister k r w = (Inl e, w))) \<and>
   (guard_kind k = Inr k' \<longrightarrow>
      k' = k \<and>
      Event_init k st d x =
        Inr \<lparr>ev_kind = k, ev_status = st, ev_data = d, ev_exc_details = x\<rparr> \<and>
      start_event k d w =
        broadcast \<lparr>ev_kind = k, ev_status = START, ev_data = d, ev_exc_details = None\<rparr> w \<and>
      end_event k d x w =
        broadcast \<lparr>ev_kind = k, ev_status = END, ev_data = d, ev_exc_details = x\<rparr> w \<and>
      (isinstance_Listener w r \<longrightarrow>
         register k r w =
           (Inr (), w\<lparr>registered := (registered w)(k := registered w k @ [r])\<rparr>) \<and>
         (r \<in> set (registered w k) \<longrightarrow> unregister k r w =
           (Inr (), w\<lparr>registered := (registered w)(k := remove1 r (registered w k))\<rparr>)) \<and>
         (r \<notin> set (registered w k) \<longrightarrow> unregister k r w = (Inl ListenerNotFound, w))))"
  by (auto simp: guard_kind_def Event_init_def start_event_def end_event_def
      register_def unregister_def split: if_splits)

theorem guard_kind_spec_witness:
  "guard_kind ''my_event'' = Inr ''my_event'' \<and>
   guard_kind ''numba:compile'' = Inr ''numba:compile'' \<and>
   guard_kind ''numba:nope'' = Inl (InvalidEventKind ''numba:nope'') \<and>
   start_event ''numba:nope'' PyNone empty_world =
     Some (Inl (InvalidEventKind ''numba:nope''), empty_world) \<and>
   end_event ''numba:nope'' PyNone None empty_world =
     Some (Inl (InvalidEventKind ''numba:nope''), empty_world) \<and>
   isinstance_Listener world_recorder 0 \<and>
   register ''numba:nope'' 0 world_recorder =
     (Inl (InvalidEventKind ''numba:nope''), world_recorder) \<and>
   unregister ''numba:nope'' 0 world_recorder =
     (Inl (InvalidEventKind ''numba:nope''), world_recorder) \<and>
   fst (register ''numba:compile'' 0 world_recorder) = Inr () \<and>
   registered (snd (register ''numba:compile'' 0 world_recorder)) ''numba:compile'' = [0]"
proof -
  have i: "isinstance_Listener world_recorder 0"
    by (simp add: isinstance_Listener_def world_recorder_def world_of_def)
  have s: "startswith ''numba:nope'' ''numba:''" "startswith ''numba:compile'' ''numba:''"
    "\<not> startswith ''my_event'' ''numba:''"
    "''numba:nope'' \<notin> builtin_kinds" "''numba:compile'' \<in> builtin_kinds"
    by (simp_all add: startswith_def builtin_kinds_def)
  have r: "registered world_recorder ''numba:compile'' = []"
    by (simp add: world_recorder_def world_of_def)
  from guard_kind_spec [of "''my_event''"] s
  have a: "guard_kind ''my_event'' = Inr ''my_event''" by blast
  from guard_kind_spec [of "''numba:compile''"] s
  have b: "guard_kind ''numba:compile'' = Inr ''numba:compile''" by blast
  from guard_kind_spec [of "''numba:nope''"] s
  have c: "guard_kind ''numba:nope'' = Inl (InvalidEventKind ''numba:nope'')" by blast
  from guard_kind_spec [of "''numba:nope''" "InvalidEventKind ''numba:nope''" START PyNone None
      empty_world] c
  have d: "start_event ''numba:nope'' PyNone empty_world =
     Some (Inl (InvalidEventKind ''numba:nope''), empty_world)"
    "end_event ''numba:nope'' PyNone None empty_world =
     Some (Inl (InvalidEventKind ''numba:nope''), empty_world)"
    by blast+
  from guard_kind_spec [of "''numba:nope''" "InvalidEventKind ''numba:nope''" START PyNone None
      world_recorder 0] c i
  have e: "register ''numba:nope'' 0 world_recorder =
     (Inl (InvalidEventKind ''numba:nope''), world_recorder)"
    "unregister ''numba:nope'' 0 world_recorder =
     (Inl (InvalidEventKind ''numba:nope''), world_recorder)"
    by blast+
  from guard_kind_spec [of "''numba:compile''" _ START PyNone None world_recorder 0
      "''numba:compile''"] b i
  have "register ''numba:compile'' 0 world_recorder =
      (Inr (), world_recorder\<lparr>registered := (registered world_recorder)
         (''numba:compile'' := registered world_recorder ''numba:compile'' @ [0])\<rparr>)"
    by blast
  with r have f: "fst (register ''numba:compile'' 0 world_recorder) = Inr ()"
    "registered (snd (register ''numba:compile'' 0 world_recorder)) ''numba:compile'' = [0]"
    by simp_all
  from a b c d i e f show ?thesis by blast
qed


section \<open>Broadcasting\<close>





section \<open>The failure triple of an event\<close>

text \<open>
  C5. For an event that has a failure triple, \<open>is_failed\<close> is true exactly when
  the first slot of the triple is \<open>None\<close>. The End record that \<open>mark_event\<close>
  hands to \<open>end_event\<close> carries the triple of the exit, so its \<open>is_failed\<close> is
  true when the body returned and false when the body raised; this record is the
  one \<open>end_event\<close> broadcasts, and a recording listener of the kind holds just
  these records after the scope.
\<close>

theorem is_failed_polarity:
  "(ev_exc_details ev = Some (ty, v, tb) \<longrightarrow> is_failed ev = Inr (ty = None)) \<and>
   is_failed (end_of k d (Some (exit_details res))) =
     Inr (case res of Inl e \<Rightarrow> False | Inr u \<Rightarrow> True) \<and>
   (guard_kind k = Inr k \<longrightarrow>
      end_event k d (Some (exit_details res)) w2 =
        broadcast (end_of k d (Some (exit_details res))) w2) \<and>
   (start_event k d w = Some (Inr (), w1) \<and> body w1 = Some (res, w2) \<longrightarrow>
      mark_event k d body w =
        (case end_event k d (Some (exit_details res)) w2 of
           None \<Rightarrow> None
         | Some (Inl x, w3) \<Rightarrow> Some (Inl x, w3)
         | Some (Inr u, w3) \<Rightarrow> Some (res, w3))) \<and>
   (start_event k d w = Some (Inr (), w1) \<and> body w1 = Some (res, w2) \<and>
    end_event k d (Some (exit_details res)) w2 = Some (Inr (), w3) \<and>
    heap w r = Some (RecordingListener buf) \<and> heap w2 r = heap w1 r \<longrightarrow>
      mark_event k d body w = Some (res, w3) \<and>
      (\<exists>ts1 ts2. (quiet_for k w \<longrightarrow> length ts1 = count_list (registered w k) r) \<and>
           (quiet_for k w2 \<longrightarrow> length ts2 = count_list (registered w2 k) r) \<and>
           heap w3 r = Some (RecordingListener
             (buf @ map (\<lambda>t. (t, start_of k d)) ts1 @
                    map (\<lambda>t. (t, end_of k d (Some (exit_details res)))) ts2))))"
proof -
  have a: "ev_exc_details ev = Some (ty, v, tb) \<longrightarrow> is_failed ev = Inr (ty = None)"
    by (simp add: is_failed_def)
  have b: "is_failed (end_of k d (Some (exit_details res))) =
     Inr (case res of Inl e \<Rightarrow> False | Inr u \<Rightarrow> True)"
    by (simp add: is_failed_def end_of_def exit_details_def exc_info_def no_exc_def
        split: sum.splits)
  have g: "guard_kind k = Inr k \<longrightarrow>
      end_event k d (Some (exit_details res)) w2 =
        broadcast (end_of k d (Some (exit_details res))) w2"
    by (simp add: end_event_def Event_init_def end_of_def)
  have m: "start_event k d w = Some (Inr (), w1) \<and> body w1 = Some (res, w2) \<longrightarrow>
      mark_event k d body w =
        (case end_event k d (Some (exit_details res)) w2 of
           None \<Rightarrow> None
         | Some (Inl x, w3) \<Rightarrow> Some (Inl x, w3)
         | Some (Inr u, w3) \<Rightarrow> Some (res, w3))"
    by (simp add: mark_event_unfold)
  have c: "start_event k d w = Some (Inr (), w1) \<and> body w1 = Some (res, w2) \<and>
    end_event k d (Some (exit_details res)) w2 = Some (Inr (), w3) \<and>
    heap w r = Some (RecordingListener buf) \<and> heap w2 r = heap w1 r \<longrightarrow>
      mark_event k d body w = Some (res, w3) \<and>
      (\<exists>ts1 ts2. (quiet_for k w \<longrightarrow> length ts1 = count_list (registered w k) r) \<and>
           (quiet_for k w2 \<longrightarrow> length ts2 = count_list (registered w2 k) r) \<and>
           heap w3 r = Some (RecordingListener
             (buf @ map (\<lambda>t. (t, start_of k d)) ts1 @
                    map (\<lambda>t. (t, end_of k d (Some (exit_details res)))) ts2)))"
    using mark_event_recorded [of k d w w1 body res w2 w3 r buf]
    by (simp add: mark_event_unfold)
  from a b g m c show ?thesis by blast
qed

theorem is_failed_polarity_witness:
  "ev_exc_details (end_of ''job'' PyNone (Some (None, None, None))) = Some (None, None, None) \<and>
   is_failed (end_of ''job'' PyNone (Some (None, None, None))) = Inr True \<and>
   is_failed (end_of ''job'' PyNone (Some (exit_details (Inr () :: exn + unit)))) = Inr True \<and>
   is_failed (end_of ''job'' PyNone (Some (exit_details (Inl body_error :: exn + unit)))) =
     Inr False \<and>
   guard_kind ''job'' = Inr ''job'' \<and>
   quiet_for ''job'' world_recorder \<and>
   heap world_recorder 0 = Some (RecordingListener []) \<and>
   outcome (mark_event ''job'' PyNone pass) world_recorder = Some (Inr ()) \<and>
   map (is_failed \<circ> snd)
     (buffer_of (world_after (mark_event ''job'' PyNone pass) world_recorder) 0) =
     [Inl NoneType_not_subscriptable, Inr True] \<and>
   outcome (mark_event ''job'' PyNone (raise body_error)) world_recorder =
     Some (Inl body_error) \<and>
   map (is_failed \<circ> snd)
     (buffer_of (world_after (mark_event ''job'' PyNone (raise body_error)) world_recorder) 0) =
     [Inl NoneType_not_subscriptable, Inr False]"
proof -
  let ?w1 = "world_after (start_event ''job'' PyNone) world_recorder"
  let ?x = "Some (exit_details (Inr () :: exn + unit))"
  let ?y = "Some (exit_details (Inl body_error :: exn + unit))"
  let ?w3 = "world_after (end_event ''job'' PyNone ?x) ?w1"
  let ?w4 = "world_after (end_event ''job'' PyNone ?y) ?w1"
  note t = is_failed_polarity [where k = "''job''" and d = PyNone and w = world_recorder
      and ?w1.0 = ?w1 and ?w2.0 = ?w1 and r = 0 and buf = "[]"]
  have d: "ev_exc_details (end_of ''job'' PyNone (Some (None, None, None))) =
      Some (None, None, None)"
    by (simp add: end_of_def)
  with is_failed_polarity [where ev = "end_of ''job'' PyNone (Some (None, None, None))"
      and ty = None and v = None and tb = None]
  have p0: "is_failed (end_of ''job'' PyNone (Some (None, None, None))) = Inr True"
    by simp
  from t [where res = "Inr ()"]
  have p1: "is_failed (end_of ''job'' PyNone ?x) = Inr True" by simp
  from t [where res = "Inl body_error"]
  have p2: "is_failed (end_of ''job'' PyNone ?y) = Inr False" by simp
  have g: "guard_kind ''job'' = Inr ''job''"
    by (simp add: guard_kind_def startswith_def)
  have q: "quiet_for ''job'' world_recorder"
    by (simp add: quiet_defs world_recorder_def world_of_def)
  have h: "heap world_recorder 0 = Some (RecordingListener [])"
    by (simp add: world_recorder_def world_of_def)
  have "outcome (start_event ''job'' PyNone) world_recorder = Some (Inr ())"
    by (simp add: run_defs world_recorder_def)
  from outcomeD [OF this]
  have s: "start_event ''job'' PyNone world_recorder = Some (Inr (), ?w1)" .
  have b: "pass ?w1 = Some (Inr (), ?w1)"
    by (simp add: pass_def)
  have b': "raise body_error ?w1 = Some (Inl body_error, ?w1)"
    by (simp add: raise_def)
  have "outcome (end_event ''job'' PyNone ?x) ?w1 = Some (Inr ())"
    by (simp add: run_defs world_recorder_def)
  from outcomeD [OF this]
  have e: "end_event ''job'' PyNone ?x ?w1 = Some (Inr (), ?w3)" .
  have "outcome (end_event ''job'' PyNone ?y) ?w1 = Some (Inr ())"
    by (simp add: run_defs world_recorder_def)
  from outcomeD [OF this]
  have e': "end_event ''job'' PyNone ?y ?w1 = Some (Inr (), ?w4)" .
  from t [where res = "Inr ()" and body = pass and ?w3.0 = ?w3] s b e h
  have m: "mark_event ''job'' PyNone pass world_recorder = Some (Inr (), ?w3)" by blast
  from t [where res = "Inl body_error" and body = "raise body_error" and ?w3.0 = ?w4] s b' e' h
  have m': "mark_event ''job'' PyNone (raise body_error) world_recorder =
      Some (Inl body_error, ?w4)" by blast
  have f: "map (is_failed \<circ> snd) (buffer_of ?w3 0) = [Inl NoneType_not_subscriptable, Inr True]"
    by (simp add: run_defs world_recorder_def is_failed_def)
  have f': "map (is_failed \<circ> snd) (buffer_of ?w4 0) =
      [Inl NoneType_not_subscriptable, Inr False]"
    by (simp add: run_defs world_recorder_def is_failed_def)
  from m f have r: "outcome (mark_event ''job'' PyNone pass) world_recorder = Some (Inr ())"
    "map (is_failed \<circ> snd)
       (buffer_of (world_after (mark_event ''job'' PyNone pass) world_recorder) 0) =
     [Inl NoneType_not_subscriptable, Inr True]"
    by (simp_all add: outcome_def world_after_def)
  from m' f' have r': "outcome (mark_event ''job'' PyNone (raise body_error)) world_recorder =
      Some (Inl body_error)"
    "map (is_failed \<circ> snd)
       (buffer_of (world_after (mark_event ''job'' PyNone (raise body_error)) world_recorder) 0) =
     [Inl NoneType_not_subscriptable, Inr False]"
    by (simp_all add: outcome_def world_after_def)
  from d p0 p1 p2 g q h r r' show ?thesis by blast
qed


section \<open>Nested events and the timing listener\<close>





section \<open>The scope of install_timer\<close>





section \<open>The buffer of a recording listener\<close>

text \<open>
  C8, as the code has it. Let \<open>r\<close> be a \<open>RecordingListener\<close> holding \<open>buf\<close>,
  registered exactly once for \<open>k\<close> in a registry that is quiet for \<open>k\<close> (no
  callback of a listener of \<open>k\<close> changes the list of \<open>k\<close>), and let \<open>n\<close>
  invocations of \<open>mark_event(k)\<close> follow one another and all return; their
  bodies leave the listener and the list of \<open>k\<close> alone (no other emission of
  \<open>k\<close>) and do not touch the clock. Then \<open>2 * n\<close> entries have been appended to
  the buffer: the Start and the End record of the first call, then those of the
  second, and so on, each paired with the reading of the wall clock at the
  instant it was delivered, and these instants increase.
\<close>

theorem recording_listener_buffer:
  assumes "heap w r = Some (RecordingListener buf)"
    and "count_list (registered w k) r = 1"
    and "quiet_for k w"
    and "\<forall>c \<in> set cs. \<forall>s res s'. snd c s = Some (res, s') \<longrightarrow>
                  heap s' r = heap s r \<and> registered s' k = registered s k \<and>
                  time_time s' = time_time s \<and> instant s \<le> instant s' \<and>
                  (quiet_for k s \<longrightarrow> quiet_for k s')"
    and "mark_events k cs w = Some (Inr (), w')"
  shows "\<exists>js. length js = 2 * length cs \<and> sorted_wrt (<) js \<and>
           (\<forall>j \<in> set js. instant w \<le> j \<and> j < instant w') \<and>
           heap w' r = Some (RecordingListener
             (buf @ zip (map (time_time w) js) (recorded_of k cs))) \<and>
           length (buffer_of w' r) = length buf + 2 * length cs \<and>
           map snd (buffer_of w' r) = map snd buf @ recorded_of k cs \<and>
           map (ev_status \<circ> snd) (drop (length buf) (buffer_of w' r)) =
             concat (replicate (length cs) [START, END])"
proof -
  from mark_events_recorded [OF assms(4) assms(1) assms(2) assms(3) assms(5)] obtain js where
    js: "length js = 2 * length cs" "sorted_wrt (<) js"
      "\<forall>j \<in> set js. instant w \<le> j \<and> j < instant w'"
      "heap w' r = Some (RecordingListener
            (buf @ zip (map (time_time w) js) (recorded_of k cs)))"
    by blast
  let ?new = "zip (map (time_time w) js) (recorded_of k cs)"
  from js(4) have b: "buffer_of w' r = buf @ ?new"
    by (simp add: buffer_of_def)
  note sh = recorded_of_shape [of k cs]
  from js(1) sh have n: "length ?new = 2 * length cs" "map snd ?new = recorded_of k cs"
    by simp_all
  from b n have l: "length (buffer_of w' r) = length buf + 2 * length cs" by simp
  from b n have s: "map snd (buffer_of w' r) = map snd buf @ recorded_of k cs" by simp
  from b have "map (ev_status \<circ> snd) (drop (length buf) (buffer_of w' r)) =
      map ev_status (map snd ?new)"
    by simp
  with n(2) sh have t: "map (ev_status \<circ> snd) (drop (length buf) (buffer_of w' r)) =
             concat (replicate (length cs) [START, END])"
    by simp
  from js l s t show ?thesis by blast
qed

theorem recording_listener_buffer_witness:
  "heap world_recorder 0 = Some (RecordingListener []) \<and>
   count_list (registered world_recorder ''job'') 0 = 1 \<and>
   quiet_for ''job'' world_recorder \<and>
   outcome (mark_events ''job'' two_calls) world_recorder = Some (Inr ()) \<and>
   length (buffer_of (world_after (mark_events ''job'' two_calls) world_recorder) 0) = 4 \<and>
   map (\<lambda>p. (ev_status (snd p), ev_data (snd p)))
     (buffer_of (world_after (mark_events ''job'' two_calls) world_recorder) 0) =
     [(START, PyInt 1), (END, PyInt 1), (START, PyInt 2), (END, PyInt 2)]"
proof -
  let ?w' = "world_after (mark_events ''job'' two_calls) world_recorder"
  have h: "heap world_recorder 0 = Some (RecordingListener [])"
    by (simp add: world_recorder_def world_of_def)
  have c: "count_list (registered world_recorder ''job'') 0 = 1"
    by (simp add: world_recorder_def world_of_def)
  have q: "quiet_for ''job'' world_recorder"
    by (simp add: quiet_defs world_recorder_def world_of_def)
  have p: "\<forall>c \<in> set two_calls. \<forall>s res s'. snd c s = Some (res, s') \<longrightarrow>
                  heap s' 0 = heap s 0 \<and> registered s' ''job'' = registered s ''job'' \<and>
                  time_time s' = time_time s \<and> instant s \<le> instant s' \<and>
                  (quiet_for ''job'' s \<longrightarrow> quiet_for ''job'' s')"
    by (auto simp: two_calls_def pass_def)
  have f: "outcome (mark_events ''job'' two_calls) world_recorder = Some (Inr ())"
    by (simp add: run_defs two_calls_def world_recorder_def)
  from outcomeD [OF f]
  have m: "mark_events ''job'' two_calls world_recorder = Some (Inr (), ?w')" .
  from recording_listener_buffer [OF h c q p m]
  have s: "length (buffer_of ?w' 0) = length ([] :: (real \<times> Event) list) + 2 * length two_calls"
    "map snd (buffer_of ?w' 0) = map snd ([] :: (real \<times> Event) list) @ recorded_of ''job'' two_calls"
    by auto
  from s(1) have l: "length (buffer_of ?w' 0) = 4"
    by (simp add: two_calls_def)
  from s(2) have s2: "map snd (buffer_of ?w' 0) = recorded_of ''job'' two_calls" by simp
  have "map (\<lambda>p. (ev_status (snd p), ev_data (snd p))) (buffer_of ?w' 0) =
      map (\<lambda>e. (ev_status e, ev_data e)) (map snd (buffer_of ?w' 0))"
    by (simp add: comp_def)
  also have "\<dots> = [(START, PyInt 1), (END, PyInt 1), (START, PyInt 2), (END, PyInt 2)]"
    by (subst s2) (simp add: recorded_of_def two_calls_def start_of_def end_of_def)
  finally have d: "map (\<lambda>p. (ev_status (snd p), ev_data (snd p))) (buffer_of ?w' 0) =
      [(START, PyInt 1), (END, PyInt 1), (START, PyInt 2), (END, PyInt 2)]" .
  from h c q f l d show ?thesis by blast
qed

text \<open>
  C8 as the spec states it fails in two ways. A recorder registered twice holds
  four records after one call of \<open>mark_event\<close>, Start, Start, End, End. And a
  recorder registered once, behind a listener that unregisters itself when it is
  ended, is skipped by the End broadcast: after one call that returns it holds
  the Start record alone.
\<close>

theorem recording_listener_buffer_not_2n:
  "heap world_twice 0 = Some (RecordingListener []) \<and>
   registered world_twice ''job'' = [0, 1, 0] \<and>
   outcome (mark_event ''job'' PyNone pass) world_twice = Some (Inr ()) \<and>
   map (ev_status \<circ> snd)
     (buffer_of (world_after (mark_event ''job'' PyNone pass) world_twice) 0) =
     [START, START, END, END] \<and>
   heap world_leaves 1 = Some (RecordingListener []) \<and>
   registered world_leaves ''job'' = [0, 1] \<and>
   outcome (mark_event ''job'' PyNone pass) world_leaves = Some (Inr ()) \<and>
   map (ev_status \<circ> snd)
     (buffer_of (world_after (mark_event ''job'' PyNone pass) world_leaves) 1) = [START]"
  by (simp add: run_defs world_twice_def world_leaves_def)


section \<open>Unregistering\<close>

text \<open>
  C9, as the code has it. For a valid kind \<open>k\<close> and a listener \<open>r\<close>: when the
  list of \<open>k\<close> holds \<open>r\<close>, \<open>unregister\<close> takes out its first occurrence and
  nothing else (later occurrences stay, other kinds are untouched); when \<open>r\<close>
  was registered exactly once, it is no longer in the list. A broadcast of that
  kind after that leaves \<open>r\<close> as it was, not notified, provided no callback
  registers \<open>r\<close> under \<open>k\<close> again while the broadcast runs: in a registry that
  is quiet for \<open>k\<close> the broadcast is the delivery to the remaining entries in
  order, and in general a broadcast that returns, in a world where no listener's
  callback ever adds \<open>r\<close> to the list of \<open>k\<close>, has left \<open>r\<close> alone and out of
  the list. When the list does not hold \<open>r\<close>, \<open>unregister\<close> fails with
  \<open>ListenerNotFound\<close> and the world is unchanged.
\<close>

theorem unregister_removes_first:
  assumes "guard_kind k = Inr k" and "isinstance_Listener w r"
  shows "(r \<in> set (registered w k) \<longrightarrow>
      (\<exists>pre post. registered w k = pre @ r # post \<and> r \<notin> set pre \<and>
         unregister k r w = (Inr (), w\<lparr>registered := (registered w)(k := pre @ post)\<rparr>))) \<and>
     (count_list (registered w k) r = 1 \<longrightarrow>
        fst (unregister k r w) = Inr () \<and>
        r \<notin> set (registered (snd (unregister k r w)) k)) \<and>
     (count_list (registered w k) r = 1 \<and> ev_kind ev = k \<and> quiet_for k w \<longrightarrow>
        broadcast ev (snd (unregister k r w)) =
          Some (notify_each (remove1 r (registered w k)) ev (snd (unregister k r w))) \<and>
        heap (world_after (broadcast ev) (snd (unregister k r w))) r = heap w r \<and>
        r \<notin> set (registered (world_after (broadcast ev) (snd (unregister k r w))) k)) \<and>
     (count_list (registered w k) r = 1 \<and> ev_kind ev = k \<and>
      (\<forall>r'. obj_never_adds k r (heap w r')) \<and>
      broadcast ev (snd (unregister k r w)) = Some (res, w') \<longrightarrow>
        heap w' r = heap w r \<and> r \<notin> set (registered w' k)) \<and>
     (r \<notin> set (registered w k) \<longrightarrow> unregister k r w = (Inl ListenerNotFound, w))"
proof -
  let ?w' = "w\<lparr>registered := (registered w)(k := remove1 r (registered w k))\<rparr>"
  have one: "unregister k r w = (Inr (), ?w') \<and> r \<notin> set (remove1 r (registered w k))"
    if c: "count_list (registered w k) r = 1"
  proof -
    from c have m: "r \<in> set (registered w k)"
      using count_list_0_iff [of "registered w k" r] by auto
    with assms have u: "unregister k r w = (Inr (), ?w')"
      by (simp add: unregister_def)
    from count_list_remove1 [OF m] c have "count_list (remove1 r (registered w k)) r = 0"
      by simp
    then have "r \<notin> set (remove1 r (registered w k))"
      by (metis count_list_0_iff)
    with u show ?thesis by blast
  qed
  have a: "r \<in> set (registered w k) \<longrightarrow>
      (\<exists>pre post. registered w k = pre @ r # post \<and> r \<notin> set pre \<and>
         unregister k r w = (Inr (), w\<lparr>registered := (registered w)(k := pre @ post)\<rparr>))"
  proof
    assume m: "r \<in> set (registered w k)"
    from remove1_first [OF m] obtain pre post where
      s: "registered w k = pre @ r # post" "r \<notin> set pre"
        "remove1 r (registered w k) = pre @ post" by blast
    from assms m s(3) have "unregister k r w =
        (Inr (), w\<lparr>registered := (registered w)(k := pre @ post)\<rparr>)"
      by (simp add: unregister_def)
    with s show "\<exists>pre post. registered w k = pre @ r # post \<and> r \<notin> set pre \<and>
         unregister k r w = (Inr (), w\<lparr>registered := (registered w)(k := pre @ post)\<rparr>)"
      by blast
  qed
  have b: "count_list (registered w k) r = 1 \<longrightarrow>
        fst (unregister k r w) = Inr () \<and>
        r \<notin> set (registered (snd (unregister k r w)) k)"
  proof
    assume c: "count_list (registered w k) r = 1"
    from one [OF c] have u: "unregister k r w = (Inr (), ?w')"
      and nm: "r \<notin> set (remove1 r (registered w k))" by simp_all
    from u have u3: "registered (snd (unregister k r w)) k = remove1 r (registered w k)"
      by simp
    have "r \<notin> set (registered (snd (unregister k r w)) k)"
      by (subst u3) (rule nm)
    with u show "fst (unregister k r w) = Inr () \<and>
        r \<notin> set (registered (snd (unregister k r w)) k)" by simp
  qed
  have q: "count_list (registered w k) r = 1 \<and> ev_kind ev = k \<and> quiet_for k w \<longrightarrow>
        broadcast ev (snd (unregister k r w)) =
          Some (notify_each (remove1 r (registered w k)) ev (snd (unregister k r w))) \<and>
        heap (world_after (broadcast ev) (snd (unregister k r w))) r = heap w r \<and>
        r \<notin> set (registered (world_after (broadcast ev) (snd (unregister k r w))) k)"
  proof (intro impI, elim conjE)
    assume c: "count_list (registered w k) r = 1" and ek: "ev_kind ev = k"
      and qw: "quiet_for k w"
    from one [OF c] have u: "unregister k r w = (Inr (), ?w')"
      and nm: "r \<notin> set (remove1 r (registered w k))" by simp_all
    have "set (remove1 r (registered w k)) \<subseteq> set (registered w k)"
      by (rule set_remove1_subset)
    with qw have q': "quiet_for k ?w'"
      by (auto simp: quiet_for_def)
    have r': "registered ?w' k = remove1 r (registered w k)" by simp
    from broadcast_quiet [of ev ?w'] q' ek r'
    have bq: "broadcast ev ?w' = Some (notify_each (remove1 r (registered w k)) ev ?w')"
      by simp
    obtain res1 w1 where n: "notify_each (remove1 r (registered w k)) ev ?w' = (res1, w1)"
      by (cases "notify_each (remove1 r (registered w k)) ev ?w'")
    from n r' have n': "notify_each (registered ?w' k) ev ?w' = (res1, w1)" by simp
    from notify_each_frame [OF n] nm have h1: "heap w1 r = heap w r" by simp
    from notify_each_quiet [OF q' n'] r' have "registered w1 k = remove1 r (registered w k)"
      by simp
    with nm have r1: "r \<notin> set (registered w1 k)" by simp
    from bq n have wa: "world_after (broadcast ev) ?w' = w1"
      by (simp add: world_after_def)
    from u bq h1 r1 wa show "broadcast ev (snd (unregister k r w)) =
          Some (notify_each (remove1 r (registered w k)) ev (snd (unregister k r w))) \<and>
        heap (world_after (broadcast ev) (snd (unregister k r w))) r = heap w r \<and>
        r \<notin> set (registered (world_after (broadcast ev) (snd (unregister k r w))) k)"
      by simp
  qed
  have g: "count_list (registered w k) r = 1 \<and> ev_kind ev = k \<and>
      (\<forall>r'. obj_never_adds k r (heap w r')) \<and>
      broadcast ev (snd (unregister k r w)) = Some (res, w') \<longrightarrow>
        heap w' r = heap w r \<and> r \<notin> set (registered w' k)"
  proof (intro impI, elim conjE)
    assume c: "count_list (registered w k) r = 1" and ek: "ev_kind ev = k"
      and na: "\<forall>r'. obj_never_adds k r (heap w r')"
      and run: "broadcast ev (snd (unregister k r w)) = Some (res, w')"
    from one [OF c] have u: "unregister k r w = (Inr (), ?w')"
      and nm: "r \<notin> set (remove1 r (registered w k))" by simp_all
    from run u ek have run': "broadcast_loop k 0 ev ?w' = Some (res, w')"
      by (simp add: broadcast_def)
    from nm have out: "r \<notin> set (registered ?w' k)" by simp
    from na have na': "\<forall>r'. obj_never_adds k r (heap ?w' r')" by simp
    from broadcast_loop_not_notified [OF run' out na']
    show "heap w' r = heap w r \<and> r \<notin> set (registered w' k)" by simp
  qed
  have c: "r \<notin> set (registered w k) \<longrightarrow> unregister k r w = (Inl ListenerNotFound, w)"
    using assms by (simp add: unregister_def)
  show ?thesis
    by (intro conjI) (fact a b q g c)+
qed

theorem unregister_removes_first_witness:
  "guard_kind ''job'' = Inr ''job'' \<and> isinstance_Listener world_twice 0 \<and>
   isinstance_Listener world_twice 1 \<and>
   registered world_twice ''job'' = [0, 1, 0] \<and>
   fst (unregister ''job'' 0 world_twice) = Inr () \<and>
   registered (snd (unregister ''job'' 0 world_twice)) ''job'' = [1, 0] \<and>
   count_list (registered world_twice ''job'') 1 = 1 \<and>
   quiet_for ''job'' world_twice \<and>
   (\<forall>r'. obj_never_adds ''job'' 1 (heap world_twice r')) \<and>
   1 \<notin> set (registered (snd (unregister ''job'' 1 world_twice)) ''job'') \<and>
   outcome (broadcast job_start) (snd (unregister ''job'' 1 world_twice)) = Some (Inr ()) \<and>
   heap (world_after (broadcast job_start) (snd (unregister ''job'' 1 world_twice))) 1 =
     heap world_twice 1 \<and>
   length (buffer_of
     (world_after (broadcast job_start) (snd (unregister ''job'' 1 world_twice))) 0) = 2 \<and>
   0 \<notin> set (registered world_twice ''other'') \<and>
   unregister ''other'' 0 world_twice = (Inl ListenerNotFound, world_twice)"
proof -
  let ?u = "snd (unregister ''job'' 1 world_twice)"
  have g: "guard_kind ''job'' = Inr ''job''" "guard_kind ''other'' = Inr ''other''"
    by (simp_all add: guard_kind_def startswith_def)
  have i: "isinstance_Listener world_twice 0" "isinstance_Listener world_twice 1"
    by (simp_all add: isinstance_Listener_def world_twice_def world_of_def)
  have r: "registered world_twice ''job'' = [0, 1, 0]" "registered world_twice ''other'' = []"
    by (simp_all add: world_twice_def world_of_def)
  have u: "fst (unregister ''job'' 0 world_twice) = Inr ()"
    "registered (snd (unregister ''job'' 0 world_twice)) ''job'' = [1, 0]"
    using g i r by (simp_all add: unregister_def)
  have c: "count_list (registered world_twice ''job'') 1 = 1"
    using r by simp
  have q: "quiet_for ''job'' world_twice"
    by (simp add: quiet_defs world_twice_def world_of_def)
  have na: "\<forall>r'. obj_never_adds ''job'' 1 (heap world_twice r')"
    by (auto simp: obj_never_adds_def world_twice_def world_of_def less_Suc_eq)
  have k: "ev_kind job_start = ''job''"
    by (simp add: job_start_def start_of_def)
  note t = unregister_removes_first [OF g(1) i(2), where ev = job_start]
  from t c have a1: "1 \<notin> set (registered ?u ''job'')"
    by blast
  from t c k q have a2: "heap (world_after (broadcast job_start) ?u) 1 = heap world_twice 1"
    by blast
  have o: "outcome (broadcast job_start) ?u = Some (Inr ())"
    "length (buffer_of (world_after (broadcast job_start) ?u) 0) = 2"
    by (simp_all add: run_defs unregister_def isinstance_Listener_def world_twice_def
        job_start_def)
  from t [where res = "Inr ()" and w' = "world_after (broadcast job_start) ?u"]
    c k na outcomeD [OF o(1)]
  have a3: "1 \<notin> set (registered (world_after (broadcast job_start) ?u) ''job'')"
    by blast
  have n: "0 \<notin> set (registered world_twice ''other'')"
    using r by simp
  with unregister_removes_first [OF g(2) i(1), where ev = job_start]
  have b: "unregister ''other'' 0 world_twice = (Inl ListenerNotFound, world_twice)"
    by blast
  from g i r u c q na a1 o a2 n b show ?thesis by blast
qed

text \<open>
  C9 as the spec states it fails when a callback registers the listener again
  while the broadcast runs. In \<open>world_registers\<close> the recorder at reference 1 is
  registered once; after it is unregistered the list holds only the listener at
  reference 0, whose \<open>on_start\<close> registers the recorder. The broadcast that
  follows walks the list as it grows and notifies the recorder.
\<close>

theorem unregistered_listener_notified:
  "guard_kind ''job'' = Inr ''job'' \<and> isinstance_Listener world_registers 1 \<and>
   count_list (registered world_registers ''job'') 1 = 1 \<and>
   buffer_of world_registers 1 = [] \<and>
   fst (unregister ''job'' 1 world_registers) = Inr () \<and>
   registered (snd (unregister ''job'' 1 world_registers)) ''job'' = [0] \<and>
   outcome (broadcast job_start) (snd (unregister ''job'' 1 world_registers)) = Some (Inr ()) \<and>
   buffer_of (world_after (broadcast job_start) (snd (unregister ''job'' 1 world_registers))) 1 =
     [(1000, job_start)]"
  by (simp add: run_defs registering_def unregister_def isinstance_Listener_def
      world_registers_def job_start_def)


section \<open>Events without a failure triple\<close>

text \<open>
  C10. Reading \<open>is_failed\<close> of an event built without a failure triple raises
  (subscripting \<open>None\<close>) instead of giving a boolean; \<open>is_failed\<close> gives a
  boolean exactly for the events that have a triple. The records that
  \<open>start_event\<close> broadcasts, and those of \<open>end_event\<close> called without the
  failure argument, are of the first sort: these are the records a recording
  listener of the kind receives from the two functions.
\<close>

theorem is_failed_without_triple:
  "(ev_exc_details ev = None \<longrightarrow> is_failed ev = Inl NoneType_not_subscriptable) \<and>
   ((\<exists>b. is_failed ev = Inr b) = (ev_exc_details ev \<noteq> None)) \<and>
   (Event_init k st d None = Inr ev \<longrightarrow> is_failed ev = Inl NoneType_not_subscriptable) \<and>
   is_failed (start_of k d) = Inl NoneType_not_subscriptable \<and>
   is_failed (end_of k d None) = Inl NoneType_not_subscriptable \<and>
   (guard_kind k = Inr k \<longrightarrow>
      start_event k d w = broadcast (start_of k d) w \<and>
      end_event k d None w = broadcast (end_of k d None) w) \<and>
   (heap w r = Some (RecordingListener buf) \<and> start_event k d w = Some (res, w') \<longrightarrow>
      (\<exists>ts. (quiet_for k w \<and> res = Inr () \<longrightarrow> length ts = count_list (registered w k) r) \<and>
         heap w' r = Some (RecordingListener (buf @ map (\<lambda>t. (t, start_of k d)) ts)))) \<and>
   (heap w r = Some (RecordingListener buf) \<and> end_event k d None w = Some (res, w') \<longrightarrow>
      (\<exists>ts. (quiet_for k w \<and> res = Inr () \<longrightarrow> length ts = count_list (registered w k) r) \<and>
         heap w' r = Some (RecordingListener (buf @ map (\<lambda>t. (t, end_of k d None)) ts))))"
proof -
  have a: "ev_exc_details ev = None \<longrightarrow> is_failed ev = Inl NoneType_not_subscriptable"
    by (simp add: is_failed_def)
  have b: "(\<exists>b. is_failed ev = Inr b) = (ev_exc_details ev \<noteq> None)"
    by (auto simp: is_failed_def split: option.splits)
  have c: "Event_init k st d None = Inr ev \<longrightarrow> is_failed ev = Inl NoneType_not_subscriptable"
    by (auto simp: Event_init_def is_failed_def split: sum.splits)
  have d: "is_failed (start_of k d) = Inl NoneType_not_subscriptable"
    "is_failed (end_of k d None) = Inl NoneType_not_subscriptable"
    by (simp_all add: is_failed_def start_of_def end_of_def)
  have g: "guard_kind k = Inr k \<longrightarrow>
      start_event k d w = broadcast (start_of k d) w \<and>
      end_event k d None w = broadcast (end_of k d None) w"
    by (simp add: start_event_def end_event_def Event_init_def start_of_def end_of_def)
  have e: "heap w r = Some (RecordingListener buf) \<and> start_event k d w = Some (res, w') \<longrightarrow>
      (\<exists>ts. (quiet_for k w \<and> res = Inr () \<longrightarrow> length ts = count_list (registered w k) r) \<and>
         heap w' r = Some (RecordingListener (buf @ map (\<lambda>t. (t, start_of k d)) ts)))"
    using emission_recorded(1) [of w r buf k d res w'] by blast
  have f: "heap w r = Some (RecordingListener buf) \<and> end_event k d None w = Some (res, w') \<longrightarrow>
      (\<exists>ts. (quiet_for k w \<and> res = Inr () \<longrightarrow> length ts = count_list (registered w k) r) \<and>
         heap w' r = Some (RecordingListener (buf @ map (\<lambda>t. (t, end_of k d None)) ts)))"
    using emission_recorded(2) [of w r buf k d None res w'] by blast
  show ?thesis
    by (intro conjI) (fact a b c d g e f)+
qed

theorem is_failed_without_triple_witness:
  "Event_init ''job'' START PyNone None = Inr job_start \<and>
   ev_exc_details job_start = None \<and>
   is_failed job_start = Inl NoneType_not_subscriptable \<and>
   heap world_recorder 0 = Some (RecordingListener []) \<and>
   quiet_for ''job'' world_recorder \<and>
   outcome (start_event ''job'' PyNone) world_recorder = Some (Inr ()) \<and>
   map snd (buffer_of (world_after (start_event ''job'' PyNone) world_recorder) 0) =
     [job_start] \<and>
   map (is_failed \<circ> snd)
     (buffer_of (world_after (start_event ''job'' PyNone) world_recorder) 0) =
     [Inl NoneType_not_subscriptable]"
proof -
  let ?w' = "world_after (start_event ''job'' PyNone) world_recorder"
  have i: "Event_init ''job'' START PyNone None = Inr job_start"
    by (simp add: Event_init_def guard_kind_def startswith_def job_start_def start_of_def)
  have n: "ev_exc_details job_start = None"
    by (simp add: job_start_def start_of_def)
  have h: "heap world_recorder 0 = Some (RecordingListener [])"
    by (simp add: world_recorder_def world_of_def)
  have q: "quiet_for ''job'' world_recorder"
    by (simp add: quiet_defs world_recorder_def world_of_def)
  have c: "count_list (registered world_recorder ''job'') 0 = 1"
    by (simp add: world_recorder_def world_of_def)
  have s: "outcome (start_event ''job'' PyNone) world_recorder = Some (Inr ())"
    by (simp add: run_defs world_recorder_def)
  note t = is_failed_without_triple [where ev = job_start and k = "''job''" and st = START
      and d = PyNone and w = world_recorder and r = 0 and buf = "[]" and res = "Inr ()"
      and w' = ?w']
  from t i have f: "is_failed job_start = Inl NoneType_not_subscriptable" by blast
  from t h q outcomeD [OF s] obtain ts where
    ts: "length ts = count_list (registered world_recorder ''job'') 0"
      "heap ?w' 0 = Some (RecordingListener ([] @ map (\<lambda>t. (t, start_of ''job'' PyNone)) ts))"
    by blast
  from ts(1) c obtain t0 where "ts = [t0]"
    by (cases ts) simp_all
  with ts(2) have b: "map snd (buffer_of ?w' 0) = [job_start]"
    by (simp add: buffer_of_def job_start_def)
  have "map (is_failed \<circ> snd) (buffer_of ?w' 0) = map is_failed (map snd (buffer_of ?w' 0))"
    by simp
  also from b f have "\<dots> = [Inl NoneType_not_subscriptable]" by simp
  finally have m: "map (is_failed \<circ> snd) (buffer_of ?w' 0) = [Inl NoneType_not_subscriptable]" .
  from i n f h q s b m show ?thesis by blast
qed


end
